theory Spec2Isabelle
  imports Complex_Main "HOL-Library.Product_Lexorder" "HOL-Library.AList"
begin

section \<open>Positions, errors and values\<close>

text \<open>
  Modelled from the spec: \<open>Position\<close> is declared in \<open>common.h\<close>, which is not among
  the sources. The spec gives a pair (row, col) of integers, totally ordered row-major;
  the lexicographic order on pairs is that order.
\<close>

type_synonym Position = "int \<times> int"

text \<open>\<open>FormulaError::Category\<close>, as \<open>formula.cpp\<close> uses it.\<close>

datatype Category = Ref | Value | Div0

datatype FormulaError = FormulaError Category

text \<open>
  What stops an operation: the two exceptions \<open>cell.cpp\<close> throws, and the dereference
  of a null pointer, which the C++ leaves undefined and the model records as a failure
  of its own.
\<close>

datatype failure = FormulaException | CircularDependencyException | NullPointerDereference

section \<open>formula.cpp\<close>

subsection \<open>Printing a FormulaError\<close>

text \<open>
  \<open>std::ostream& operator<<(std::ostream& output, FormulaError fe)\<close>: the stream is the
  text written so far.
\<close>

definition print_FormulaError :: "string \<Rightarrow> FormulaError \<Rightarrow> string" where
  "print_FormulaError output fe = output @ ''#DIV/0!''"

subsection \<open>CellValueGetter: reading a string as a number\<close>

text \<open>
  The pattern is \<open>^(-?)(0|([1-9][0-9]*))(.[0-9]+)?$\<close>, matched against the whole text with
  \<open>std::regex_match\<close> (ECMAScript grammar). The dot is not escaped: it stands for any
  character but a line terminator.
\<close>

definition is_digit :: "char \<Rightarrow> bool" where
  "is_digit c = (c \<in> set ''0123456789'')"

definition is_nonzero_digit :: "char \<Rightarrow> bool" where
  "is_nonzero_digit c = (c \<in> set ''123456789'')"

definition any_char :: "char \<Rightarrow> bool" where
  "any_char c = (c \<noteq> CHR 0x0A \<and> c \<noteq> CHR 0x0D)"

text \<open>\<open>(.[0-9]+)?$\<close>\<close>

fun match_fraction :: "string \<Rightarrow> bool" where
  "match_fraction [] = True"
| "match_fraction (c # cs) = (any_char c \<and> cs \<noteq> [] \<and> list_all is_digit cs)"

text \<open>\<open>[0-9]*(.[0-9]+)?$\<close>: either one more digit of the star, or the star ends here.\<close>

fun match_digits_fraction :: "string \<Rightarrow> bool" where
  "match_digits_fraction [] = True"
| "match_digits_fraction (c # cs) =
     ((is_digit c \<and> match_digits_fraction cs) \<or> match_fraction (c # cs))"

text \<open>\<open>(0|([1-9][0-9]*))(.[0-9]+)?$\<close>\<close>

fun match_unsigned :: "string \<Rightarrow> bool" where
  "match_unsigned [] = False"
| "match_unsigned (c # cs) =
     ((c = CHR ''0'' \<and> match_fraction cs) \<or> (is_nonzero_digit c \<and> match_digits_fraction cs))"

definition kDoubleValuePattern :: "string \<Rightarrow> bool" where
  "kDoubleValuePattern text =
     (case text of
        [] \<Rightarrow> False
      | c # cs \<Rightarrow> (c = CHR ''-'' \<and> match_unsigned cs) \<or> match_unsigned text)"

text \<open>
  \<open>double operator()(const std::string& text)\<close>. \<open>std::stod\<close> belongs to the standard
  library and is a parameter: \<open>None\<close> is a call that throws (out of range). A thrown
  FormulaError is \<open>Inl\<close>. Doubles are modelled as rationals throughout.
\<close>

definition CellValueGetter_string :: "(string \<Rightarrow> rat option) \<Rightarrow> string \<Rightarrow> FormulaError + rat" where
  "CellValueGetter_string stod text =
     (if kDoubleValuePattern text
      then (case stod text of Some d \<Rightarrow> Inr d | None \<Rightarrow> Inl (FormulaError Value))
      else Inl (FormulaError Value))"

text \<open>
  The grammar as the specification words it: an optional sign, an integer part \<open>0\<close> or
  \<open>[1-9][0-9]*\<close>, an optional fraction of a literal dot and one or more digits. The sign is
  read as the minus sign of the pattern.
\<close>

definition spec_fraction :: "string \<Rightarrow> bool" where
  "spec_fraction cs =
     (case cs of [] \<Rightarrow> True | c # ds \<Rightarrow> c = CHR ''.'' \<and> ds \<noteq> [] \<and> list_all is_digit ds)"

definition spec_unsigned :: "string \<Rightarrow> bool" where
  "spec_unsigned cs =
     (case cs of
        [] \<Rightarrow> False
      | c # ds \<Rightarrow>
          (c = CHR ''0'' \<and> spec_fraction ds) \<or>
          (is_nonzero_digit c \<and> spec_fraction (dropWhile is_digit ds)))"

definition spec_strict_decimal :: "string \<Rightarrow> bool" where
  "spec_strict_decimal text =
     (case text of
        [] \<Rightarrow> False
      | c # cs \<Rightarrow> (c = CHR ''-'' \<and> spec_unsigned cs) \<or> spec_unsigned text)"

subsection \<open>The Formula constructor\<close>

text \<open>
  \<open>referenced_cells_\<close> is built from \<open>ast_.GetCells()\<close>, the argument here (the AST is an
  external collaborator): \<open>std::unique\<close> first, which drops an element equal to the one
  before it, then \<open>std::sort\<close>.
\<close>

definition Formula_referenced_cells :: "Position list \<Rightarrow> Position list" where
  "Formula_referenced_cells cells = sort (remdups_adj cells)"

section \<open>FormulaAST\<close>

text \<open>
  Modelled from the spec: \<open>FormulaAST\<close> (\<open>FormulaAST.h\<close>) is the external parser's tree and
  is not among the sources. The spec gives it two operations, \<open>GetCells()\<close>, the positions
  the tree refers to, and \<open>Execute(lookup)\<close>, which evaluates the tree with a lookup from
  positions to doubles and raises \<open>Div0\<close> when a divisor is zero. The tree here has numbers,
  cell references and the four binary operations. Every position inside a tree is taken to
  be valid, so \<open>Ref\<close> is never raised.
\<close>

datatype BinaryOp = Add | Subtract | Multiply | Divide

datatype Expr = NumberExpr rat | CellExpr Position | BinaryOpExpr BinaryOp Expr Expr

text \<open>The references of a tree, one for each occurrence, from left to right.\<close>

fun Expr_cells :: "Expr \<Rightarrow> Position list" where
  "Expr_cells (NumberExpr d) = []"
| "Expr_cells (CellExpr p) = [p]"
| "Expr_cells (BinaryOpExpr op l r) = Expr_cells l @ Expr_cells r"

text \<open>
  Modelled from the spec: \<open>FormulaAST::GetCells\<close>. The overview of the spec says that the
  tree yields the referenced positions sorted and deduplicated; its list of interfaces gives
  \<open>GetCells()\<close> as a sequence of positions which the engine (the constructor of \<open>Formula\<close>)
  sorts and deduplicates. The model takes the order from the overview, a sorted sequence,
  and keeps a position as often as the tree refers to it, so that removing the repeats is
  left to the constructor.
\<close>

definition GetCells :: "Expr \<Rightarrow> Position list" where
  "GetCells e = sort (Expr_cells e)"

text \<open>
  How a call ends: it returns, it throws a \<open>FormulaError\<close>, or it dereferences a null pointer.
\<close>

datatype 'a outcome = Return 'a | Throw FormulaError | Undefined

text \<open>
  Modelled from the spec: the arithmetic of \<open>Execute\<close>. On rationals it is exact: no result
  is rounded and none is non-finite, so the only \<open>Div0\<close> of the model is a zero divisor.
\<close>

definition apply_BinaryOp :: "BinaryOp \<Rightarrow> rat \<Rightarrow> rat \<Rightarrow> rat outcome" where
  "apply_BinaryOp op a b =
     (case op of
        Add \<Rightarrow> Return (a + b)
      | Subtract \<Rightarrow> Return (a - b)
      | Multiply \<Rightarrow> Return (a * b)
      | Divide \<Rightarrow> if b = 0 then Throw (FormulaError Div0) else Return (a / b))"

section \<open>cell.cpp\<close>

subsection \<open>The data\<close>

text \<open>
  The members \<open>ast_\<close>, \<open>referenced_cells_\<close>, \<open>value_\<close>, \<open>descending_cells_\<close> and
  \<open>ascending_cells_\<close> lose their trailing underscore, which an Isabelle name cannot end with
  (\<open>value_\<close> becomes \<open>cell_value\<close>).

  \<open>class Formula\<close> of \<open>formula.cpp\<close>: the tree and the list its constructor computes.
\<close>

record Formula =
  ast :: Expr
  referenced_cells :: "Position list"

text \<open>
  The three classes derived from \<open>CellValueInterface\<close>; a \<open>FormulaCellValue\<close> holds
  \<open>formula_\<close> and \<open>cache_\<close>.
\<close>

datatype CellValue = EmptyCellValue | TextCellValue string | FormulaCellValue Formula "rat option"

text \<open>
  \<open>class Cell\<close>. \<open>value_\<close> is a \<open>unique_ptr\<close>, null (\<open>None\<close>) until the first \<open>Set\<close> or
  \<open>Clear\<close>. The two edge sets are \<open>std::unordered_set<const Cell*>\<close>: a cell pointer is
  modelled by the position of the cell, and a set by the list of its elements in the order
  a range-for loop visits them, which the C++ standard leaves to the implementation.
\<close>

record Cell =
  cell_value :: "CellValue option"
  descending_cells :: "Position list"
  ascending_cells :: "Position list"

text \<open>
  Modelled from the spec: \<open>Sheet\<close> (\<open>sheet.cpp\<close> is not among the sources) owns the cells,
  at most one per position, never destroys one, and its \<open>GetCell(p)\<close> returns the cell of
  \<open>p\<close> if present and a null pointer if the position was never touched. A sheet is the
  list of its cells with their positions and \<open>GetCell\<close> is \<open>map_of\<close>.
\<close>

type_synonym Sheet = "(Position \<times> Cell) list"

text \<open>\<open>Cell::Cell(SheetInterface&)\<close>: a null value and two empty sets.\<close>

definition fresh_Cell :: Cell where
  "fresh_Cell = \<lparr>cell_value = None, descending_cells = [], ascending_cells = []\<rparr>"

text \<open>
  Modelled from the spec: \<open>FormulaAST::Execute\<close>. The lookup may run out of fuel (\<open>None\<close>,
  see \<open>Cell_GetValue\<close>) and changes the sheet, since reading a formula cell fills its
  cache. The left operand is evaluated first; an exception ends the evaluation.
\<close>

fun Execute :: "(Position \<Rightarrow> Sheet \<Rightarrow> (rat outcome \<times> Sheet) option) \<Rightarrow> Expr \<Rightarrow> Sheet \<Rightarrow> (rat outcome \<times> Sheet) option" where
  "Execute get_value (NumberExpr d) s = Some (Return d, s)"
| "Execute get_value (CellExpr p) s = get_value p s"
| "Execute get_value (BinaryOpExpr op l r) s =
     (case Execute get_value l s of
        None \<Rightarrow> None
      | Some (Return a, s1) \<Rightarrow>
          (case Execute get_value r s1 of
             None \<Rightarrow> None
           | Some (Return b, s2) \<Rightarrow> Some (apply_BinaryOp op a b, s2)
           | Some (Throw e, s2) \<Rightarrow> Some (Throw e, s2)
           | Some (Undefined, s2) \<Rightarrow> Some (Undefined, s2))
      | Some (Throw e, s1) \<Rightarrow> Some (Throw e, s1)
      | Some (Undefined, s1) \<Rightarrow> Some (Undefined, s1))"

subsection \<open>The cycle check\<close>

text \<open>
  What \<open>HasCircularDependency\<close> does: it returns true, it returns false with the visited
  set it leaves, or it dereferences a null pointer.
\<close>

datatype search = Found | NotFound "Position set" | Crashed

text \<open>
  \<open>TryInterpretAsFormula\<close> returns the \<open>FormulaCellValue\<close> behind the pointer (its two
  members), or null.
\<close>

definition TryInterpretAsFormula :: "CellValue option \<Rightarrow> (Formula \<times> rat option) option" where
  "TryInterpretAsFormula cell =
     (case cell of Some (FormulaCellValue f c) \<Rightarrow> Some (f, c) | _ \<Rightarrow> None)"

text \<open>
  The positions the loop of \<open>HasCircularDependency\<close> runs over: none when \<open>current\<close> is not
  a formula (the method returns false at once).
\<close>

definition referenced_by :: "CellValue option \<Rightarrow> Position list" where
  "referenced_by current =
     (case TryInterpretAsFormula current of None \<Rightarrow> [] | Some (f, c) \<Rightarrow> referenced_cells f)"

text \<open>
  The loop of \<open>Cell::HasCircularDependency\<close>. \<open>GetCell(position)\<close> is null when the sheet has
  no cell there: a null pointer is not \<open>reference\<close> and not in \<open>visited\<close>, so it is inserted
  and then dereferenced by \<open>cell->HasCircularDependency(reference, cell->value_, visited)\<close>.
\<close>

function HasCircularDependency_for :: "Sheet \<Rightarrow> Position \<Rightarrow> Position list \<Rightarrow> Position set \<Rightarrow> search" where
  "HasCircularDependency_for s reference [] visited = NotFound visited"
| "HasCircularDependency_for s reference (position # rest) visited =
     (case map_of s position of
        None \<Rightarrow> Crashed
      | Some cell \<Rightarrow>
          if position = reference then Found
          else if position \<notin> visited then
            (case HasCircularDependency_for s reference (referenced_by (cell_value cell)) (insert position visited) of
               Found \<Rightarrow> Found
             | Crashed \<Rightarrow> Crashed
             | NotFound visited' \<Rightarrow> HasCircularDependency_for s reference rest visited')
          else HasCircularDependency_for s reference rest visited)"
  by pat_completeness auto

lemma HasCircularDependency_for_visited:
  "HasCircularDependency_for_dom (s, reference, ps, visited) \<Longrightarrow>
   HasCircularDependency_for s reference ps visited = NotFound visited' \<Longrightarrow> visited \<subseteq> visited'"
proof (induction s reference ps visited arbitrary: visited' rule: HasCircularDependency_for.pinduct)
  case (1 s reference visited)
  then show ?case by (simp add: HasCircularDependency_for.psimps)
next
  case (2 s reference position rest visited)
  from "2.prems" "2.hyps" show ?case
    apply (simp add: HasCircularDependency_for.psimps split: option.splits if_splits search.splits)
    using "2.IH" by blast+
qed

termination HasCircularDependency_for
proof (relation "inv_image (less_than <*lex*> less_than)
    (\<lambda>(s, reference, ps, visited). (card (fst ` set s - visited), length ps))", goal_cases)
  case 1
  show ?case by (intro wf_inv_image wf_lex_prod wf_less_than)
next
  case (2 s reference position rest visited cell)
  from 2 have "position \<in> fst ` set s - visited"
    by (auto dest!: map_of_SomeD intro: rev_image_eqI)
  then have "fst ` set s - insert position visited \<subset> fst ` set s - visited"
    by auto
  then have "card (fst ` set s - insert position visited) < card (fst ` set s - visited)"
    by (simp add: psubset_card_mono)
  then show ?case by simp
next
  case (3 s reference position rest visited cell visited')
  from 3 have sub: "insert position visited \<subseteq> visited'"
    by (auto dest: HasCircularDependency_for_visited)
  from 3 have "position \<in> fst ` set s - visited"
    by (auto dest!: map_of_SomeD intro: rev_image_eqI)
  with sub have "fst ` set s - visited' \<subset> fst ` set s - visited"
    by auto
  then have "card (fst ` set s - visited') < card (fst ` set s - visited)"
    by (simp add: psubset_card_mono)
  then show ?case by simp
next
  case (4 s reference position rest visited cell)
  then show ?case by simp
qed


definition HasCircularDependency :: "Sheet \<Rightarrow> Position \<Rightarrow> CellValue option \<Rightarrow> Position set \<Rightarrow> search" where
  "HasCircularDependency s reference current visited =
     HasCircularDependency_for s reference (referenced_by current) visited"

subsection \<open>Cache invalidation\<close>

text \<open>\<open>FormulaCellValue::InvalidateCache\<close>, on the value of a cell.\<close>

definition InvalidateCache :: "Cell \<Rightarrow> Cell" where
  "InvalidateCache cell =
     (case cell_value cell of
        Some (FormulaCellValue f c) \<Rightarrow> cell\<lparr>cell_value := Some (FormulaCellValue f None)\<rparr>
      | _ \<Rightarrow> cell)"

text \<open>
  The cell a pointer of an edge set points to. The sets hold pointers to cells the sheet
  owns, so the position always has a cell; the other case is there for totality.
\<close>

definition cell_at :: "Sheet \<Rightarrow> Position \<Rightarrow> Cell" where
  "cell_at s p = (case map_of s p of Some cell \<Rightarrow> cell | None \<Rightarrow> fresh_Cell)"

text \<open>\<open>formula_cell && formula_cell->IsCacheValid()\<close>\<close>

definition IsCacheValid :: "CellValue option \<Rightarrow> bool" where
  "IsCacheValid v = (case TryInterpretAsFormula v of Some (f, Some d) \<Rightarrow> True | _ \<Rightarrow> False)"

text \<open>
  The loop of \<open>Cell::InvalidateReferencedCellsCache\<close> over \<open>ascending_cells_\<close>. On a visited
  cell the method returns: the rest of the set is not looked at.
\<close>

function InvalidateReferencedCellsCache_for :: "Position list \<Rightarrow> Sheet \<times> Position set \<Rightarrow> Sheet \<times> Position set" where
  "InvalidateReferencedCellsCache_for [] (s, visited) = (s, visited)"
| "InvalidateReferencedCellsCache_for (p # rest) (s, visited) =
     (if p \<in> visited then (s, visited)
      else if IsCacheValid (cell_value (cell_at s p)) then
        InvalidateReferencedCellsCache_for rest
          (InvalidateReferencedCellsCache_for (ascending_cells (cell_at s p))
             (AList.map_entry p InvalidateCache s, insert p visited))
      else InvalidateReferencedCellsCache_for rest (s, insert p visited))"
  by pat_completeness auto

lemma InvalidateReferencedCellsCache_for_frame:
  "InvalidateReferencedCellsCache_for_dom (ps, sv) \<Longrightarrow>
   snd sv \<subseteq> snd (InvalidateReferencedCellsCache_for ps sv) \<and>
   fst ` set (fst (InvalidateReferencedCellsCache_for ps sv)) = fst ` set (fst sv)"
proof (induction ps sv rule: InvalidateReferencedCellsCache_for.pinduct)
  case (1 s visited)
  then show ?case by (simp add: InvalidateReferencedCellsCache_for.psimps)
next
  case (2 p rest s visited)
  show ?case
  proof (cases "p \<in> visited")
    case True
    with "2.hyps" show ?thesis
      by (simp add: InvalidateReferencedCellsCache_for.psimps)
  next
    case unvisited: False
    show ?thesis
    proof (cases "IsCacheValid (cell_value (cell_at s p))")
      case True
      define mid where "mid = InvalidateReferencedCellsCache_for (ascending_cells (cell_at s p))
          (AList.map_entry p InvalidateCache s, insert p visited)"
      have m: "insert p visited \<subseteq> snd mid \<and> fst ` set (fst mid) = fst ` set s"
        using "2.IH"(1)[OF unvisited True] by (simp add: mid_def dom_map_entry)
      have r: "snd mid \<subseteq> snd (InvalidateReferencedCellsCache_for rest mid) \<and>
          fst ` set (fst (InvalidateReferencedCellsCache_for rest mid)) = fst ` set (fst mid)"
        using "2.IH"(2)[OF unvisited True] by (simp add: mid_def)
      have "InvalidateReferencedCellsCache_for (p # rest) (s, visited) =
          InvalidateReferencedCellsCache_for rest mid"
        using "2.hyps" unvisited True by (simp add: InvalidateReferencedCellsCache_for.psimps mid_def)
      with m r show ?thesis by auto
    next
      case False
      have "InvalidateReferencedCellsCache_for (p # rest) (s, visited) =
          InvalidateReferencedCellsCache_for rest (s, insert p visited)"
        using "2.hyps" unvisited False by (simp add: InvalidateReferencedCellsCache_for.psimps)
      with "2.IH"(3)[OF unvisited False] show ?thesis by auto
    qed
  qed
qed

termination InvalidateReferencedCellsCache_for
proof (relation "inv_image (less_than <*lex*> less_than)
    (\<lambda>(ps, s, visited). (card (fst ` set s - visited), length ps))", goal_cases)
  case 1
  show ?case by (intro wf_inv_image wf_lex_prod wf_less_than)
next
  case (2 p rest s visited)
  then have "map_of s p \<noteq> None"
    by (auto simp: IsCacheValid_def cell_at_def fresh_Cell_def TryInterpretAsFormula_def split: option.splits)
  with 2 have "p \<in> fst ` set s - visited"
    by (auto dest!: map_of_SomeD intro: rev_image_eqI)
  then have "fst ` set (AList.map_entry p InvalidateCache s) - insert p visited \<subset> fst ` set s - visited"
    by (auto simp: dom_map_entry)
  then have "card (fst ` set (AList.map_entry p InvalidateCache s) - insert p visited) < card (fst ` set s - visited)"
    by (simp add: psubset_card_mono)
  then show ?case by simp
next
  case (3 p rest s visited)
  then have "map_of s p \<noteq> None"
    by (auto simp: IsCacheValid_def cell_at_def fresh_Cell_def TryInterpretAsFormula_def split: option.splits)
  with 3 have pin: "p \<in> fst ` set s - visited"
    by (auto dest!: map_of_SomeD intro: rev_image_eqI)
  obtain s' visited' where mid: "InvalidateReferencedCellsCache_for (ascending_cells (cell_at s p))
      (AList.map_entry p InvalidateCache s, insert p visited) = (s', visited')"
    by (cases "InvalidateReferencedCellsCache_for (ascending_cells (cell_at s p))
      (AList.map_entry p InvalidateCache s, insert p visited)")
  from InvalidateReferencedCellsCache_for_frame[OF 3(3)] mid
  have "insert p visited \<subseteq> visited' \<and> fst ` set s' = fst ` set s"
    by (simp add: dom_map_entry)
  with pin have "fst ` set s' - visited' \<subset> fst ` set s - visited"
    by auto
  then have "card (fst ` set s' - visited') < card (fst ` set s - visited)"
    by (simp add: psubset_card_mono)
  with mid show ?case by simp
next
  case (4 p rest s visited)
  have "fst ` set s - insert p visited \<subseteq> fst ` set s - visited" by auto
  then have "card (fst ` set s - insert p visited) \<le> card (fst ` set s - visited)"
    by (simp add: card_mono)
  then show ?case by auto
qed


subsection \<open>Set and Clear\<close>

text \<open>
  What the model takes from outside the sources: the parser \<open>ParseFormulaAST\<close>
  (\<open>None\<close> when it throws), \<open>std::stod\<close> (\<open>None\<close> when it throws), and where an
  \<open>unordered_set\<close> puts a new element in its iteration order: first, or last.
\<close>

record Env =
  ParseFormulaAST :: "string \<Rightarrow> Expr option"
  stod :: "string \<Rightarrow> rat option"
  newest_first :: bool

text \<open>\<open>Formula::Formula\<close> and \<open>ParseFormula\<close> of \<open>formula.cpp\<close>.\<close>

definition make_Formula :: "Expr \<Rightarrow> Formula" where
  "make_Formula e = \<lparr>ast = e, referenced_cells = Formula_referenced_cells (GetCells e)\<rparr>"

definition ParseFormula :: "Env \<Rightarrow> string \<Rightarrow> failure + Formula" where
  "ParseFormula env expression =
     (case ParseFormulaAST env expression of
        None \<Rightarrow> Inl FormulaException
      | Some e \<Rightarrow> Inr (make_Formula e))"

text \<open>
  \<open>Cell::TryCreateCell\<close>; \<open>FORMULA_SIGN\<close> is \<open>=\<close>. Whatever the constructor of
  \<open>FormulaCellValue\<close> throws is thrown again as a \<open>FormulaException\<close>.
\<close>

definition TryCreateCell :: "Env \<Rightarrow> string \<Rightarrow> failure + CellValue" where
  "TryCreateCell env text =
     (if length text > 1 \<and> hd text = CHR ''='' then
        (case ParseFormula env (tl text) of
           Inl e \<Rightarrow> Inl FormulaException
         | Inr f \<Rightarrow> Inr (FormulaCellValue f None))
      else if text \<noteq> [] then Inr (TextCellValue text)
      else Inr EmptyCellValue)"

text \<open>\<open>insert\<close> and \<open>erase\<close> of an \<open>unordered_set\<close>.\<close>

definition unordered_insert :: "bool \<Rightarrow> Position \<Rightarrow> Position list \<Rightarrow> Position list" where
  "unordered_insert front x xs = (if x \<in> set xs then xs else if front then x # xs else xs @ [x])"

definition erase_ascending :: "Position \<Rightarrow> Cell \<Rightarrow> Cell" where
  "erase_ascending this cell = cell\<lparr>ascending_cells := removeAll this (ascending_cells cell)\<rparr>"

text \<open>\<open>Cell::RemoveOldConnections\<close>\<close>

definition RemoveOldConnections :: "Position \<Rightarrow> Sheet \<Rightarrow> Sheet" where
  "RemoveOldConnections this s =
     AList.map_entry this (\<lambda>cell. cell\<lparr>descending_cells := []\<rparr>)
       (fold (\<lambda>p. AList.map_entry p (erase_ascending this)) (descending_cells (cell_at s this)) s)"

text \<open>
  \<open>Cell::EstablishNewConnections\<close>; \<open>None\<close> when \<open>GetCell(position)\<close> is null, which
  \<open>cell->ascending_cells_\<close> dereferences.
\<close>

fun EstablishNewConnections_for :: "bool \<Rightarrow> Position \<Rightarrow> Position list \<Rightarrow> Sheet \<Rightarrow> Sheet option" where
  "EstablishNewConnections_for front this [] s = Some s"
| "EstablishNewConnections_for front this (position # rest) s =
     (case map_of s position of
        None \<Rightarrow> None
      | Some cell \<Rightarrow>
          EstablishNewConnections_for front this rest
            (AList.map_entry position
               (\<lambda>c. c\<lparr>ascending_cells := unordered_insert front this (ascending_cells c)\<rparr>)
               (AList.map_entry this
                  (\<lambda>c. c\<lparr>descending_cells := unordered_insert front position (descending_cells c)\<rparr>) s)))"

definition EstablishNewConnections :: "Env \<Rightarrow> Position \<Rightarrow> Formula \<Rightarrow> Sheet \<Rightarrow> Sheet option" where
  "EstablishNewConnections env this formula_cell s =
     EstablishNewConnections_for (newest_first env) this (referenced_cells formula_cell) s"

definition InvalidateReferencedCellsCache :: "Position \<Rightarrow> Sheet \<times> Position set \<Rightarrow> Sheet \<times> Position set" where
  "InvalidateReferencedCellsCache this sv =
     InvalidateReferencedCellsCache_for (ascending_cells (cell_at (fst sv) this)) sv"

text \<open>
  \<open>Cell::Set\<close>, called on the cell at \<open>this\<close>, which must exist. The result is the
  exception thrown, if any, and the sheet. After a null dereference the sheet returned is
  the one reached before it; the C++ gives it no meaning.
\<close>

definition Cell_Set :: "Env \<Rightarrow> Position \<Rightarrow> string \<Rightarrow> Sheet \<Rightarrow> failure option \<times> Sheet" where
  "Cell_Set env this text s =
     (if map_of s this = None then (Some NullPointerDereference, s)
      else
        (case TryCreateCell env text of
           Inl e \<Rightarrow> (Some e, s)
         | Inr tmp \<Rightarrow>
             (case HasCircularDependency s this (Some tmp) {this} of
                Found \<Rightarrow> (Some CircularDependencyException, s)
              | Crashed \<Rightarrow> (Some NullPointerDereference, s)
              | NotFound visited \<Rightarrow>
                  (let s1 = AList.map_entry this (\<lambda>cell. cell\<lparr>cell_value := Some tmp\<rparr>) s;
                       s2 = (if descending_cells (cell_at s1 this) \<noteq> []
                             then RemoveOldConnections this s1 else s1)
                   in (case (case TryInterpretAsFormula (Some tmp) of
                               None \<Rightarrow> Some s2
                             | Some (f, c) \<Rightarrow> EstablishNewConnections env this f s2) of
                         None \<Rightarrow> (Some NullPointerDereference, s2)
                       | Some s3 \<Rightarrow>
                           (None,
                            if ascending_cells (cell_at s3 this) \<noteq> []
                            then fst (InvalidateReferencedCellsCache this (s3, {this}))
                            else s3))))))"

text \<open>\<open>Cell::Clear\<close>\<close>

definition Cell_Clear :: "Position \<Rightarrow> Sheet \<Rightarrow> failure option \<times> Sheet" where
  "Cell_Clear this s =
     (if map_of s this = None then (Some NullPointerDereference, s)
      else
        (let s3 =
           (if cell_value (cell_at s this) \<noteq> None then
              (let s1 = (if descending_cells (cell_at s this) \<noteq> []
                         then RemoveOldConnections this s else s);
                   s2 = (if ascending_cells (cell_at s1 this) \<noteq> []
                         then fst (InvalidateReferencedCellsCache this (s1, {this}))
                         else s1)
               in AList.map_entry this (\<lambda>cell. cell\<lparr>cell_value := None\<rparr>) s2)
            else s)
         in (None, AList.map_entry this (\<lambda>cell. cell\<lparr>cell_value := Some EmptyCellValue\<rparr>) s3)))"

subsection \<open>The getters\<close>

text \<open>
  \<open>Cell::GetReferencedCells\<close>: the result of \<open>TryInterpretAsFormula\<close> is dereferenced
  without a test.
\<close>

definition Cell_GetReferencedCells :: "Sheet \<Rightarrow> Position \<Rightarrow> failure + Position list" where
  "Cell_GetReferencedCells s this =
     (case map_of s this of
        None \<Rightarrow> Inl NullPointerDereference
      | Some cell \<Rightarrow>
          (case TryInterpretAsFormula (cell_value cell) of
             None \<Rightarrow> Inl NullPointerDereference
           | Some (f, c) \<Rightarrow> Inr (referenced_cells f)))"

text \<open>\<open>CellInterface::Value\<close>, a variant of string, double and FormulaError.\<close>

datatype Value = VString string | VDouble rat | VError FormulaError

text \<open>\<open>TextCellValue::GetValue\<close>; \<open>ESCAPE_SIGN\<close> is the apostrophe.\<close>

definition ESCAPE_SIGN :: char where
  "ESCAPE_SIGN = CHR 0x27"

definition TextCellValue_GetValue :: "string \<Rightarrow> Value" where
  "TextCellValue_GetValue text =
     VString (if text \<noteq> [] \<and> hd text = ESCAPE_SIGN then tl text else text)"

text \<open>\<open>std::visit(CellValueGetter{}, value)\<close>\<close>

definition CellValueGetter :: "Env \<Rightarrow> Value \<Rightarrow> rat outcome" where
  "CellValueGetter env v =
     (case v of
        VString text \<Rightarrow>
          (case CellValueGetter_string (stod env) text of Inl e \<Rightarrow> Throw e | Inr d \<Rightarrow> Return d)
      | VDouble d \<Rightarrow> Return d
      | VError e \<Rightarrow> Throw e)"

text \<open>
  The lambda \<open>get_value\<close> of \<open>Formula::Evaluate\<close>. \<open>cell_GetValue\<close> is \<open>Cell::GetValue\<close>,
  passed in because the two call each other.
\<close>

definition get_value ::
  "(Position \<Rightarrow> Sheet \<Rightarrow> (Value outcome \<times> Sheet) option) \<Rightarrow> Env \<Rightarrow> Position \<Rightarrow> Sheet \<Rightarrow> (rat outcome \<times> Sheet) option" where
  "get_value cell_GetValue env position s =
     (case map_of s position of
        None \<Rightarrow> Some (Return 0, s)
      | Some cell \<Rightarrow>
          (case cell_GetValue position s of
             None \<Rightarrow> None
           | Some (Return v, s') \<Rightarrow> Some (CellValueGetter env v, s')
           | Some (Throw e, s') \<Rightarrow> Some (Throw e, s')
           | Some (Undefined, s') \<Rightarrow> Some (Undefined, s')))"

text \<open>\<open>Formula::Evaluate\<close>: a thrown \<open>FormulaError\<close> is caught and returned.\<close>

definition Formula_Evaluate ::
  "(Position \<Rightarrow> Sheet \<Rightarrow> (Value outcome \<times> Sheet) option) \<Rightarrow> Env \<Rightarrow> Formula \<Rightarrow> Sheet \<Rightarrow> ((FormulaError + rat) outcome \<times> Sheet) option" where
  "Formula_Evaluate cell_GetValue env f s =
     (case Execute (get_value cell_GetValue env) (ast f) s of
        None \<Rightarrow> None
      | Some (Return d, s') \<Rightarrow> Some (Return (Inr d), s')
      | Some (Throw error_code, s') \<Rightarrow> Some (Return (Inl error_code), s')
      | Some (Undefined, s') \<Rightarrow> Some (Undefined, s'))"

text \<open>\<open>cache_ = *value\<close>\<close>

definition set_cache :: "rat \<Rightarrow> Cell \<Rightarrow> Cell" where
  "set_cache d cell =
     (case cell_value cell of
        Some (FormulaCellValue f c) \<Rightarrow> cell\<lparr>cell_value := Some (FormulaCellValue f (Some d))\<rparr>
      | _ \<Rightarrow> cell)"

text \<open>\<open>FormulaCellValue::GetValue\<close>, of the value of the cell at \<open>this\<close>.\<close>

definition FormulaCellValue_GetValue ::
  "(Position \<Rightarrow> Sheet \<Rightarrow> (Value outcome \<times> Sheet) option) \<Rightarrow> Env \<Rightarrow> Position \<Rightarrow> Formula \<Rightarrow> rat option \<Rightarrow> Sheet \<Rightarrow> (Value outcome \<times> Sheet) option" where
  "FormulaCellValue_GetValue cell_GetValue env this f cache s =
     (case cache of
        Some d \<Rightarrow> Some (Return (VDouble d), s)
      | None \<Rightarrow>
          (case Formula_Evaluate cell_GetValue env f s of
             None \<Rightarrow> None
           | Some (Return (Inr d), s') \<Rightarrow> Some (Return (VDouble d), AList.map_entry this (set_cache d) s')
           | Some (Return (Inl e), s') \<Rightarrow> Some (Return (VError e), s')
           | Some (Throw e, s') \<Rightarrow> Some (Throw e, s')
           | Some (Undefined, s') \<Rightarrow> Some (Undefined, s')))"

text \<open>
  \<open>Cell::GetValue\<close>: \<open>value_->GetValue()\<close> dispatches on the class of the value and
  dereferences a null \<open>value_\<close>.
\<close>

definition CellValue_GetValue ::
  "(Position \<Rightarrow> Sheet \<Rightarrow> (Value outcome \<times> Sheet) option) \<Rightarrow> Env \<Rightarrow> Position \<Rightarrow> Sheet \<Rightarrow> (Value outcome \<times> Sheet) option" where
  "CellValue_GetValue cell_GetValue env this s =
     (case map_of s this of
        None \<Rightarrow> Some (Undefined, s)
      | Some cell \<Rightarrow>
          (case cell_value cell of
             None \<Rightarrow> Some (Undefined, s)
           | Some EmptyCellValue \<Rightarrow> Some (Return (VDouble 0), s)
           | Some (TextCellValue text) \<Rightarrow> Some (Return (TextCellValue_GetValue text), s)
           | Some (FormulaCellValue f cache) \<Rightarrow>
               FormulaCellValue_GetValue cell_GetValue env this f cache s))"

text \<open>
  Reading a formula cell reads the cells it refers to, and so on; on a sheet with a cycle of
  references this never ends. The fuel bounds the depth of these nested reads, and \<open>None\<close>
  is a read that needs more.
\<close>

primrec Cell_GetValue :: "nat \<Rightarrow> Env \<Rightarrow> Position \<Rightarrow> Sheet \<Rightarrow> (Value outcome \<times> Sheet) option" where
  "Cell_GetValue 0 env this s = None"
| "Cell_GetValue (Suc fuel) env this s = CellValue_GetValue (Cell_GetValue fuel env) env this s"

section \<open>Observations and scenarios\<close>

text \<open>A sheet with every cache emptied: what an evaluation leaves untouched.\<close>

definition erase_caches :: "Sheet \<Rightarrow> Sheet" where
  "erase_caches s = map (\<lambda>(p, cell). (p, InvalidateCache cell)) s"

text \<open>The cache of the cell at a position (none for a cell that is not a formula).\<close>

definition cache_at :: "Sheet \<Rightarrow> Position \<Rightarrow> rat option" where
  "cache_at s p =
     (case TryInterpretAsFormula (cell_value (cell_at s p)) of Some (f, c) \<Rightarrow> c | None \<Rightarrow> None)"

text \<open>The formula of a cell evaluated against the sheet, whatever its cache holds.\<close>

definition evaluate_from_scratch :: "nat \<Rightarrow> Env \<Rightarrow> Sheet \<Rightarrow> Position \<Rightarrow> (FormulaError + rat) outcome option" where
  "evaluate_from_scratch fuel env s p =
     (case TryInterpretAsFormula (cell_value (cell_at s p)) of
        None \<Rightarrow> Some Undefined
      | Some (f, c) \<Rightarrow> map_option fst (Formula_Evaluate (Cell_GetValue fuel env) env f s))"

text \<open>
  The parser and \<open>std::stod\<close> on the texts the scenarios use. A1, B1, C1 and D1 are the
  positions (0, 0), (0, 1), (0, 2) and (0, 3).
\<close>

definition scenario_parser :: "string \<Rightarrow> Expr option" where
  "scenario_parser expression =
     (if expression = ''A1'' then Some (CellExpr (0, 0))
      else if expression = ''A1+B1'' then Some (BinaryOpExpr Add (CellExpr (0, 0)) (CellExpr (0, 1)))
      else if expression = ''A1+B1+D1'' then
        Some (BinaryOpExpr Add (BinaryOpExpr Add (CellExpr (0, 0)) (CellExpr (0, 1))) (CellExpr (0, 3)))
      else None)"

definition scenario_stod :: "string \<Rightarrow> rat option" where
  "scenario_stod text = (if text = ''1'' then Some 1 else if text = ''2'' then Some 2 else None)"

definition scenario_env :: "bool \<Rightarrow> Env" where
  "scenario_env front = \<lparr>ParseFormulaAST = scenario_parser, stod = scenario_stod, newest_first = front\<rparr>"

text \<open>A sheet that has created the cells of A1, B1, C1 and D1 and set none.\<close>

definition four_cells :: Sheet where
  "four_cells = [((0, 0), fresh_Cell), ((0, 1), fresh_Cell), ((0, 2), fresh_Cell), ((0, 3), fresh_Cell)]"

text \<open>
  A1 is set to the text 1, B1 to \<open>=A1\<close>, C1 to \<open>=A1+B1+D1\<close> and then D1 to \<open>=A1\<close>; C1 is
  read, which fills the caches of B1, C1 and D1; A1 is set to the text 2.
\<close>

definition after_A1 :: "bool \<Rightarrow> Sheet" where
  "after_A1 front = snd (Cell_Set (scenario_env front) (0, 0) ''1'' four_cells)"

definition after_B1 :: "bool \<Rightarrow> Sheet" where
  "after_B1 front = snd (Cell_Set (scenario_env front) (0, 1) ''=A1'' (after_A1 front))"

definition after_C1 :: "bool \<Rightarrow> Sheet" where
  "after_C1 front = snd (Cell_Set (scenario_env front) (0, 2) ''=A1+B1+D1'' (after_B1 front))"

definition scenario_before :: "bool \<Rightarrow> Sheet" where
  "scenario_before front = snd (Cell_Set (scenario_env front) (0, 3) ''=A1'' (after_C1 front))"

definition scenario_filled :: "bool \<Rightarrow> Sheet" where
  "scenario_filled front =
     (case Cell_GetValue 3 (scenario_env front) (0, 2) (scenario_before front) of
        Some (v, s) \<Rightarrow> s
      | None \<Rightarrow> scenario_before front)"

definition scenario_after :: "bool \<Rightarrow> Sheet" where
  "scenario_after front = snd (Cell_Set (scenario_env front) (0, 0) ''2'' (scenario_filled front))"

text \<open>A1 is set to the text \<open>abc\<close>, which is no number, and B1 to \<open>=A1\<close>.\<close>

definition error_sheet :: Sheet where
  "error_sheet =
     snd (Cell_Set (scenario_env False) (0, 1) ''=A1''
       (snd (Cell_Set (scenario_env False) (0, 0) ''abc'' four_cells)))"

text \<open>
  A parser that reads \<open>B1+A1+B1\<close>, a formula which refers to B1 twice and to A1 after B1.
\<close>

definition repeated_tree :: Expr where
  "repeated_tree =
     BinaryOpExpr Add (BinaryOpExpr Add (CellExpr (0, 1)) (CellExpr (0, 0))) (CellExpr (0, 1))"

definition repeated_env :: Env where
  "repeated_env =
     \<lparr>ParseFormulaAST = (\<lambda>expression. if expression = ''B1+A1+B1'' then Some repeated_tree else None),
      stod = scenario_stod, newest_first = False\<rparr>"

section \<open>The edge invariant\<close>

text \<open>
  Over the cells of the sheet: B is in the outgoing set of A exactly when A is in the
  incoming set of B; and every edge leads to a cell of the sheet (a pointer in an edge set
  points to a cell the sheet owns).
\<close>

definition edges_symmetric :: "Sheet \<Rightarrow> bool" where
  "edges_symmetric s =
     (\<forall>a \<in> fst ` set s. \<forall>b \<in> fst ` set s.
        (b \<in> set (descending_cells (cell_at s a))) = (a \<in> set (ascending_cells (cell_at s b))))"

definition edges_closed :: "Sheet \<Rightarrow> bool" where
  "edges_closed s =
     (\<forall>a \<in> fst ` set s.
        set (descending_cells (cell_at s a)) \<subseteq> fst ` set s \<and>
        set (ascending_cells (cell_at s a)) \<subseteq> fst ` set s)"

definition edges_ok :: "Sheet \<Rightarrow> bool" where
  "edges_ok s = (edges_symmetric s \<and> edges_closed s)"

text \<open>
  The sheets a run of public operations reaches from the empty sheet, as long as no
  operation dereferences a null pointer. Modelled from the spec: the sheet creates the cell
  of a position on the first write to it (\<open>create\<close>); the other steps are the operations
  of \<open>cell.cpp\<close>.
\<close>

inductive reachable :: "Env \<Rightarrow> Sheet \<Rightarrow> bool" for env :: Env where
  empty: "reachable env []"
| create: "reachable env s \<Longrightarrow> map_of s p = None \<Longrightarrow> reachable env (s @ [(p, fresh_Cell)])"
| Set: "reachable env s \<Longrightarrow> Cell_Set env this text s = (r, s') \<Longrightarrow>
    r \<noteq> Some NullPointerDereference \<Longrightarrow> reachable env s'"
| Clear: "reachable env s \<Longrightarrow> Cell_Clear this s = (None, s') \<Longrightarrow> reachable env s'"
| GetValue: "reachable env s \<Longrightarrow> Cell_GetValue fuel env this s = Some (Return v, s') \<Longrightarrow>
    reachable env s'"

text \<open>
  The reference graph: an edge from a cell to every position its formula refers to; and the
  graph of the outgoing edge sets.
\<close>

definition references :: "Sheet \<Rightarrow> (Position \<times> Position) set" where
  "references s = {(p, q). q \<in> set (referenced_by (cell_value (cell_at s p)))}"

definition references_closed :: "Sheet \<Rightarrow> bool" where
  "references_closed s =
     (\<forall>p \<in> fst ` set s. set (referenced_by (cell_value (cell_at s p))) \<subseteq> fst ` set s)"

definition out_edges :: "Sheet \<Rightarrow> (Position \<times> Position) set" where
  "out_edges s = {(p, q). q \<in> set (descending_cells (cell_at s p))}"

definition out_is_references :: "Sheet \<Rightarrow> bool" where
  "out_is_references s =
     (\<forall>q. set (descending_cells (cell_at s q)) = set (referenced_by (cell_value (cell_at s q))))"

text \<open>
  The formula of the cell at a position, if it holds one, and the graph an evaluation
  follows: an edge from a formula cell to every position its tree refers to.
\<close>

definition formula_at :: "Sheet \<Rightarrow> Position \<Rightarrow> Formula option" where
  "formula_at s p = map_option fst (TryInterpretAsFormula (cell_value (cell_at s p)))"

definition reads :: "Sheet \<Rightarrow> (Position \<times> Position) set" where
  "reads s = {(p, q). \<exists>f. formula_at s p = Some f \<and> q \<in> set (Expr_cells (ast f))}"

text \<open>Every formula of the sheet is what the constructor of \<open>Formula\<close> builds from its tree.\<close>

definition formulas_made :: "Sheet \<Rightarrow> bool" where
  "formulas_made s = (\<forall>p f. formula_at s p = Some f \<longrightarrow> f = make_Formula (ast f))"

section \<open>Results about formula.cpp\<close>

lemma set_Formula_referenced_cells: "set (Formula_referenced_cells cells) = set cells"
  by (simp add: Formula_referenced_cells_def)

lemma sorted_Formula_referenced_cells: "sorted (Formula_referenced_cells cells)"
  by (simp add: Formula_referenced_cells_def)

text \<open>
  C4. Rendering a FormulaError gives the token of its kind: \<open>#REF!\<close>, \<open>#VALUE!\<close>,
  \<open>#DIV/0!\<close>. The operator ignores its argument: every kind is written as \<open>#DIV/0!\<close>, so
  the claim fails for \<open>Ref\<close> and \<open>Value\<close>.
\<close>

theorem print_FormulaError_ignores_category:
  "print_FormulaError [] (FormulaError Ref) = ''#DIV/0!'' \<and>
   print_FormulaError [] (FormulaError Value) = ''#DIV/0!'' \<and>
   print_FormulaError [] (FormulaError Div0) = ''#DIV/0!''"
  by (simp add: print_FormulaError_def)

text \<open>
  C5. A string read by a formula is converted if and only if it matches the strict decimal
  grammar, and raises \<open>FormulaError(Value)\<close> otherwise. The text \<open>1x5\<close> is outside the
  grammar, yet the pattern of the code accepts it (its dot matches the \<open>x\<close>), so the getter
  hands it to \<open>std::stod\<close> and raises \<open>Value\<close> only if that call throws.
\<close>

theorem CellValueGetter_accepts_1x5:
  "\<not> spec_strict_decimal ''1x5'' \<and> kDoubleValuePattern ''1x5'' \<and>
   CellValueGetter_string std_stod ''1x5'' =
     (case std_stod ''1x5'' of Some d \<Rightarrow> Inr d | None \<Rightarrow> Inl (FormulaError Value))"
  by (simp add: CellValueGetter_string_def kDoubleValuePattern_def spec_strict_decimal_def
      spec_unsigned_def spec_fraction_def is_digit_def is_nonzero_digit_def any_char_def)

lemma spec_fraction_match: "spec_fraction cs \<Longrightarrow> match_fraction cs"
  by (cases cs) (auto simp: spec_fraction_def any_char_def)

lemma spec_digits_fraction_match:
  "spec_fraction (dropWhile is_digit ds) \<Longrightarrow> match_digits_fraction ds"
proof (induction ds)
  case Nil
  show ?case by simp
next
  case (Cons d ds)
  show ?case
  proof (cases "is_digit d")
    case True
    with Cons show ?thesis by simp
  next
    case False
    with Cons.prems have "match_fraction (d # ds)"
      by (auto dest: spec_fraction_match)
    then show ?thesis by simp
  qed
qed

lemma spec_unsigned_match: "spec_unsigned cs \<Longrightarrow> match_unsigned cs"
  by (cases cs) (auto simp: spec_unsigned_def dest: spec_fraction_match spec_digits_fraction_match)

text \<open>
  Every text of the strict decimal grammar matches the pattern and is handed to
  \<open>std::stod\<close>.
\<close>

theorem strict_decimal_is_accepted:
  assumes "spec_strict_decimal str"
  shows "kDoubleValuePattern str \<and>
         CellValueGetter_string std_stod str =
           (case std_stod str of Some d \<Rightarrow> Inr d | None \<Rightarrow> Inl (FormulaError Value))"
proof -
  from assms have "kDoubleValuePattern str"
    by (cases str) (auto simp: spec_strict_decimal_def kDoubleValuePattern_def dest: spec_unsigned_match)
  then show ?thesis by (simp add: CellValueGetter_string_def)
qed

theorem strict_decimal_is_accepted_witness:
  "spec_strict_decimal ''-12.50'' \<and> kDoubleValuePattern ''-12.50'' \<and>
   spec_strict_decimal ''2'' \<and> CellValueGetter_string scenario_stod ''2'' = Inr 2"
proof -
  have a: "spec_strict_decimal ''-12.50''"
    by (simp add: spec_strict_decimal_def spec_unsigned_def spec_fraction_def is_digit_def is_nonzero_digit_def)
  have b: "spec_strict_decimal ''2''"
    by (simp add: spec_strict_decimal_def spec_unsigned_def spec_fraction_def is_digit_def is_nonzero_digit_def)
  from strict_decimal_is_accepted[OF a, of scenario_stod] strict_decimal_is_accepted[OF b, of scenario_stod] a b
  show ?thesis by (simp add: scenario_stod_def)
qed

lemma distinct_remdups_adj_sorted:
  fixes xs :: "'a::linorder list"
  shows "sorted xs \<Longrightarrow> distinct (remdups_adj xs)"
proof (induction xs rule: remdups_adj.induct)
  case 1
  show ?case by simp
next
  case (2 x)
  show ?case by simp
next
  case (3 x y xs)
  show ?case
  proof (cases "x = y")
    case True
    with 3 show ?thesis by simp
  next
    case False
    with "3.prems" have "x < y" and "\<forall>z \<in> set xs. y \<le> z" by auto
    then have "x \<notin> set (y # xs)" by auto
    with False 3 show ?thesis by simp
  qed
qed

text \<open>
  When \<open>GetCells()\<close> yields a sorted sequence, \<open>std::unique\<close> alone gives the result, which
  is sorted, free of duplicates and holds exactly the positions of the sequence.
\<close>

theorem Formula_referenced_cells_sorted_input:
  assumes "sorted cells"
  shows "Formula_referenced_cells cells = remdups_adj cells \<and>
         sorted (Formula_referenced_cells cells) \<and>
         distinct (Formula_referenced_cells cells) \<and>
         set (Formula_referenced_cells cells) = set cells"
  using assms
  by (simp add: Formula_referenced_cells_def distinct_remdups_adj_sorted sorted_sort_id)

theorem Formula_referenced_cells_sorted_input_witness:
  "sorted [(0, 0), (0, 0), (0, 1) :: Position] \<and>
   Formula_referenced_cells [(0, 0), (0, 0), (0, 1)] = [(0, 0), (0, 1)]"
  using Formula_referenced_cells_sorted_input[of "[(0, 0), (0, 0), (0, 1)]"]
  by simp

text \<open>
  The constructor removes a position equal to the one before it and then sorts: on the
  sequence A1, B1, A1, which is not sorted, it stores A1, A1, B1. That the stored list has
  no repeat rests on \<open>GetCells()\<close> yielding a sorted sequence.
\<close>

theorem Formula_referenced_cells_keeps_duplicate:
  "Formula_referenced_cells [(0, 0), (0, 1), (0, 0)] = [(0, 0), (0, 0), (0, 1)] \<and>
   \<not> distinct (Formula_referenced_cells [(0, 0), (0, 1), (0, 0)])"
  by (simp add: Formula_referenced_cells_def)

text \<open>
  C6. For every formula that \<open>ParseFormula\<close> returns, the list \<open>GetReferencedCells()\<close> gives
  (the member \<open>referenced_cells_\<close>) is sorted in the order of the positions, holds no
  position twice, and its elements are exactly the positions the tree of the formula refers
  to.
\<close>

theorem ParseFormula_referenced_cells:
  assumes "ParseFormula env expression = Inr f"
  shows "ParseFormulaAST env expression = Some (ast f) \<and>
         sorted (referenced_cells f) \<and>
         distinct (referenced_cells f) \<and>
         set (referenced_cells f) = set (Expr_cells (ast f))"
proof -
  from assms obtain e where e: "ParseFormulaAST env expression = Some e" and f: "f = make_Formula e"
    by (auto simp: ParseFormula_def split: option.splits)
  have "sorted (GetCells e)" by (simp add: GetCells_def)
  then have "distinct (Formula_referenced_cells (GetCells e))"
    by (simp add: Formula_referenced_cells_def distinct_remdups_adj_sorted sorted_sort_id)
  moreover have "set (Formula_referenced_cells (GetCells e)) = set (Expr_cells e)"
    by (simp add: set_Formula_referenced_cells GetCells_def)
  ultimately show ?thesis
    using e by (simp add: f make_Formula_def sorted_Formula_referenced_cells)
qed

theorem ParseFormula_referenced_cells_witness:
  "ParseFormula repeated_env ''B1+A1+B1'' = Inr (make_Formula repeated_tree) \<and>
   Expr_cells repeated_tree = [(0, 1), (0, 0), (0, 1)] \<and>
   referenced_cells (make_Formula repeated_tree) = [(0, 0), (0, 1)] \<and>
   sorted (referenced_cells (make_Formula repeated_tree)) \<and>
   distinct (referenced_cells (make_Formula repeated_tree))"
proof -
  have parsed: "ParseFormula repeated_env ''B1+A1+B1'' = Inr (make_Formula repeated_tree)"
    by (simp add: ParseFormula_def repeated_env_def)
  have cells: "Expr_cells repeated_tree = [(0, 1), (0, 0), (0, 1)]"
    by (simp add: repeated_tree_def)
  have stored: "referenced_cells (make_Formula repeated_tree) = [(0, 0), (0, 1)]"
    by (simp add: make_Formula_def GetCells_def cells Formula_referenced_cells_def)
  from ParseFormula_referenced_cells[OF parsed] parsed cells stored
  show ?thesis by simp
qed

section \<open>Results about cell.cpp\<close>

subsection \<open>Rejected edits\<close>

text \<open>
  C2. If \<open>Cell::Set\<close> fails with a \<open>FormulaException\<close> (the parser rejects the text) or a
  \<open>CircularDependencyException\<close>, the sheet it leaves (the value, both edge sets and the
  cache of every cell) is the sheet it was given.
\<close>

theorem Cell_Set_rejected_leaves_sheet:
  assumes "Cell_Set env this text s = (Some e, s')"
    and "e = FormulaException \<or> e = CircularDependencyException"
  shows "s' = s"
  using assms
  by (auto simp: Cell_Set_def Let_def split: if_splits sum.splits search.splits option.splits prod.splits)

theorem Cell_Set_rejected_leaves_sheet_witness:
  "fst (Cell_Set (scenario_env False) (0, 0) ''=A1'' four_cells) = Some CircularDependencyException \<and>
   snd (Cell_Set (scenario_env False) (0, 0) ''=A1'' four_cells) = four_cells \<and>
   fst (Cell_Set (scenario_env False) (0, 0) ''=1+'' four_cells) = Some FormulaException \<and>
   snd (Cell_Set (scenario_env False) (0, 0) ''=1+'' four_cells) = four_cells"
proof -
  have cycle: "Cell_Set (scenario_env False) (0, 0) ''=A1'' four_cells =
      (Some CircularDependencyException, snd (Cell_Set (scenario_env False) (0, 0) ''=A1'' four_cells))"
    by code_simp
  have parse: "Cell_Set (scenario_env False) (0, 0) ''=1+'' four_cells =
      (Some FormulaException, snd (Cell_Set (scenario_env False) (0, 0) ''=1+'' four_cells))"
    by code_simp
  from Cell_Set_rejected_leaves_sheet[OF cycle] Cell_Set_rejected_leaves_sheet[OF parse]
  have "snd (Cell_Set (scenario_env False) (0, 0) ''=A1'' four_cells) = four_cells"
    and "snd (Cell_Set (scenario_env False) (0, 0) ''=1+'' four_cells) = four_cells"
    by simp_all
  moreover from cycle have "fst (Cell_Set (scenario_env False) (0, 0) ''=A1'' four_cells) = Some CircularDependencyException"
    by (metis fst_conv)
  moreover from parse have "fst (Cell_Set (scenario_env False) (0, 0) ''=1+'' four_cells) = Some FormulaException"
    by (metis fst_conv)
  ultimately show ?thesis by simp
qed

subsection \<open>References to positions without a cell\<close>

text \<open>The lookup of an evaluation reads 0 at a position that has no cell.\<close>

lemma get_value_absent: "map_of s position = None \<Longrightarrow> get_value g env position s = Some (Return 0, s)"
  by (simp add: get_value_def)

text \<open>
  C8. A formula that refers to a never-set position reads 0 there, and \<open>Set\<close> creates an
  Empty cell at the position before the cycle check runs. The lookup of an evaluation does
  read 0 where the sheet has no cell (\<open>get_value_absent\<close> above), but \<open>Cell::Set\<close> creates
  nothing: on a sheet that holds only B1, setting B1 to \<open>=A1\<close> makes the cycle check
  dereference the null pointer \<open>GetCell\<close> returns for A1.
\<close>

theorem Cell_Set_unset_reference_null:
  "Cell_Set (scenario_env False) (0, 1) ''=A1'' [((0, 1), fresh_Cell)] =
     (Some NullPointerDereference, [((0, 1), fresh_Cell)])"
  by code_simp

text \<open>
  C3. \<open>Cell::Set\<close> with a formula fails with \<open>CircularDependency\<close> exactly when the cell is
  reachable from the positions of the formula, a direct self-reference included. On a sheet
  that holds only B1, the text \<open>=A1+B1\<close> refers to B1 itself, yet \<open>Set\<close> on B1 throws
  nothing: the loop reaches A1 first, which has no cell, and dereferences a null pointer.
\<close>

theorem Cell_Set_self_reference_null:
  "(0, 1) \<in> set (referenced_by (Some (FormulaCellValue
       (make_Formula (BinaryOpExpr Add (CellExpr (0, 0)) (CellExpr (0, 1)))) None))) \<and>
   Cell_Set (scenario_env False) (0, 1) ''=A1+B1'' [((0, 1), fresh_Cell)] =
     (Some NullPointerDereference, [((0, 1), fresh_Cell)])"
  by code_simp

text \<open>
  C10. \<open>GetReferencedCells\<close> on a cell whose value is Empty or Text returns an empty list.
  \<open>TryInterpretAsFormula\<close> returns a null pointer for such a cell and
  \<open>Cell::GetReferencedCells\<close> dereferences it: after \<open>Set("hello")\<close>, and after \<open>Clear()\<close>, the
  call returns no list.
\<close>

theorem Cell_GetReferencedCells_null:
  "Cell_GetReferencedCells (snd (Cell_Set (scenario_env False) (0, 0) ''hello'' [((0, 0), fresh_Cell)])) (0, 0) =
     Inl NullPointerDereference \<and>
   Cell_GetReferencedCells (snd (Cell_Clear (0, 0) [((0, 0), fresh_Cell)])) (0, 0) =
     Inl NullPointerDereference"
  by code_simp

subsection \<open>The cache\<close>

lemma InvalidateCache_idem [simp]: "InvalidateCache (InvalidateCache c) = InvalidateCache c"
  by (auto simp: InvalidateCache_def split: option.splits CellValue.splits)

lemma InvalidateCache_set_cache [simp]: "InvalidateCache (set_cache d c) = InvalidateCache c"
  by (auto simp: InvalidateCache_def set_cache_def split: option.splits CellValue.splits)

lemma erase_caches_map_entry:
  "(\<And>c. InvalidateCache (f c) = InvalidateCache c) \<Longrightarrow> erase_caches (AList.map_entry p f s) = erase_caches s"
  by (induction s) (auto simp: erase_caches_def)

lemma map_of_erase_caches: "map_of (erase_caches s) p = map_option InvalidateCache (map_of s p)"
  by (induction s) (auto simp: erase_caches_def)

text \<open>An evaluation changes nothing but caches.\<close>

lemma Execute_frame:
  assumes "\<And>p s r s'. g p s = Some (r, s') \<Longrightarrow> erase_caches s' = erase_caches s"
  shows "Execute g e s = Some (r, s') \<Longrightarrow> erase_caches s' = erase_caches s"
proof (induction e arbitrary: s r s')
  case (NumberExpr d)
  then show ?case by simp
next
  case (CellExpr p)
  then show ?case using assms by simp
next
  case (BinaryOpExpr op l r')
  from BinaryOpExpr.prems show ?case
    by (auto split: option.splits outcome.splits prod.splits
        dest!: BinaryOpExpr.IH(1) BinaryOpExpr.IH(2))
qed

lemma get_value_frame:
  assumes "\<And>p s r s'. c p s = Some (r, s') \<Longrightarrow> erase_caches s' = erase_caches s"
  shows "get_value c env p s = Some (r, s') \<Longrightarrow> erase_caches s' = erase_caches s"
  by (auto simp: get_value_def split: option.splits outcome.splits prod.splits dest: assms)

lemma Formula_Evaluate_frame:
  assumes "\<And>p s r s'. c p s = Some (r, s') \<Longrightarrow> erase_caches s' = erase_caches s"
  shows "Formula_Evaluate c env f s = Some (r, s') \<Longrightarrow> erase_caches s' = erase_caches s"
proof -
  have ex: "Execute (get_value c env) e s = Some (r, s') \<Longrightarrow> erase_caches s' = erase_caches s"
    for e s r s'
    by (erule Execute_frame[rotated]) (erule get_value_frame[rotated], erule assms)
  show "Formula_Evaluate c env f s = Some (r, s') \<Longrightarrow> erase_caches s' = erase_caches s"
    by (auto simp: Formula_Evaluate_def split: option.splits outcome.splits prod.splits dest: ex)
qed

lemma Cell_GetValue_frame:
  "Cell_GetValue fuel env p s = Some (r, s') \<Longrightarrow> erase_caches s' = erase_caches s"
proof (induction fuel arbitrary: p s r s')
  case 0
  then show ?case by simp
next
  case (Suc fuel)
  have ev: "\<And>f s r s'. Formula_Evaluate (Cell_GetValue fuel env) env f s = Some (r, s') \<Longrightarrow>
      erase_caches s' = erase_caches s"
    by (erule Formula_Evaluate_frame[rotated]) (erule Suc.IH)
  from Suc.prems show ?case
    by (auto simp: CellValue_GetValue_def FormulaCellValue_GetValue_def erase_caches_map_entry
        split: option.splits outcome.splits prod.splits CellValue.splits sum.splits dest: ev)
qed

lemma cell_value_InvalidateCache:
  "cell_value (InvalidateCache c) =
     (case cell_value c of
        Some (FormulaCellValue f d) \<Rightarrow> Some (FormulaCellValue f None)
      | v \<Rightarrow> v)"
  by (simp add: InvalidateCache_def split: option.splits CellValue.splits)

lemma erase_caches_formula:
  assumes "erase_caches s1 = erase_caches s" and "map_of s p = Some cell"
    and "cell_value cell = Some (FormulaCellValue f c)"
  shows "\<exists>cell1 c1. map_of s1 p = Some cell1 \<and> cell_value cell1 = Some (FormulaCellValue f c1)"
proof -
  from assms(1) have "map_option InvalidateCache (map_of s1 p) = map_option InvalidateCache (map_of s p)"
    by (simp flip: map_of_erase_caches)
  with assms(2) obtain cell1 where c1: "map_of s1 p = Some cell1" "InvalidateCache cell1 = InvalidateCache cell"
    by auto
  from c1(2) have "cell_value (InvalidateCache cell1) = cell_value (InvalidateCache cell)"
    by simp
  with assms(3) have "\<exists>c1. cell_value cell1 = Some (FormulaCellValue f c1)"
    by (simp add: cell_value_InvalidateCache split: option.splits CellValue.splits)
  with c1(1) show ?thesis by blast
qed

lemma cache_at_set_cache:
  assumes "map_of s1 p = Some cell1" and "cell_value cell1 = Some (FormulaCellValue f c1)"
  shows "cache_at (AList.map_entry p (set_cache d) s1) p = Some d"
  using assms
  by (simp add: cache_at_def cell_at_def map_of_map_entry set_cache_def TryInterpretAsFormula_def)

text \<open>
  C1. After every operation a filled cache holds what evaluating the formula against the
  sheet yields: every edit of a cell empties the cache of every formula cell that depended
  on it. In the scenario the caches of B1, C1 and D1 are filled (C1 reads 3) and A1 is then
  set from 1 to 2. \<open>InvalidateReferencedCellsCache\<close> walks the dependents of A1. Visiting
  them in the order they were inserted (B1, C1, D1), it empties B1, from there C1, and back
  in the loop of A1 finds C1 visited and returns: D1 keeps the cache 1, reads 1, and its
  formula \<open>=A1\<close> evaluates to 2. Visiting them in the opposite order (D1, C1, B1) leaves B1
  stale in the same way.
\<close>

theorem stale_cache_after_Set:
  "fst (Cell_Set (scenario_env False) (0, 0) ''2'' (scenario_filled False)) = None \<and>
   (0, 0) \<in> set (descending_cells (cell_at (scenario_after False) (0, 3))) \<and>
   cache_at (scenario_after False) (0, 3) = Some 1 \<and>
   map_option fst (Cell_GetValue 3 (scenario_env False) (0, 3) (scenario_after False)) =
     Some (Return (VDouble 1)) \<and>
   evaluate_from_scratch 3 (scenario_env False) (scenario_after False) (0, 3) = Some (Return (Inr 2)) \<and>
   (0, 0) \<in> set (descending_cells (cell_at (scenario_after True) (0, 1))) \<and>
   cache_at (scenario_after True) (0, 1) = Some 1 \<and>
   map_option fst (Cell_GetValue 3 (scenario_env True) (0, 1) (scenario_after True)) =
     Some (Return (VDouble 1)) \<and>
   evaluate_from_scratch 3 (scenario_env True) (scenario_after True) (0, 1) = Some (Return (Inr 2))"
  by code_simp

subsection \<open>The edge sets\<close>

lemma in_keys_iff: "p \<in> fst ` set s \<longleftrightarrow> map_of s p \<noteq> None"
  by (metis map_of_eq_None_iff)

lemma cell_at_absent: "p \<notin> fst ` set s \<Longrightarrow> cell_at s p = fresh_Cell"
  by (simp add: cell_at_def in_keys_iff)

lemma cell_at_map_entry:
  "cell_at (AList.map_entry k f s) p =
     (if p = k \<and> k \<in> fst ` set s then f (cell_at s k) else cell_at s p)"
  by (auto simp: cell_at_def map_of_map_entry in_keys_iff split: option.splits)

lemma keys_map_entry [simp]: "fst ` set (AList.map_entry k f s) = fst ` set s"
  by (rule dom_map_entry)

lemma keys_fold_map_entry [simp]:
  "fst ` set (fold (\<lambda>p. AList.map_entry p f) ps s) = fst ` set s"
  by (induction ps arbitrary: s) simp_all

lemma erase_ascending_idem: "erase_ascending this (erase_ascending this c) = erase_ascending this c"
  by (simp add: erase_ascending_def)

lemma cell_at_fold_erase_ascending:
  "cell_at (fold (\<lambda>p. AList.map_entry p (erase_ascending this)) ps s) q =
     (if q \<in> set ps \<and> q \<in> fst ` set s then erase_ascending this (cell_at s q) else cell_at s q)"
  by (induction ps arbitrary: s) (auto simp: cell_at_map_entry erase_ascending_idem)

lemma keys_RemoveOldConnections [simp]: "fst ` set (RemoveOldConnections this s) = fst ` set s"
  by (simp add: RemoveOldConnections_def)

lemma descending_RemoveOldConnections:
  "this \<in> fst ` set s \<Longrightarrow>
   set (descending_cells (cell_at (RemoveOldConnections this s) q)) =
     (if q = this then {} else set (descending_cells (cell_at s q)))"
  by (simp add: RemoveOldConnections_def cell_at_map_entry
      cell_at_fold_erase_ascending erase_ascending_def)

lemma ascending_RemoveOldConnections:
  "set (ascending_cells (cell_at (RemoveOldConnections this s) q)) =
     (if q \<in> set (descending_cells (cell_at s this))
      then set (ascending_cells (cell_at s q)) - {this}
      else set (ascending_cells (cell_at s q)))"
  by (auto simp: RemoveOldConnections_def cell_at_map_entry
      cell_at_fold_erase_ascending erase_ascending_def cell_at_absent fresh_Cell_def)

lemma cell_value_RemoveOldConnections:
  "cell_value (cell_at (RemoveOldConnections this s) q) = cell_value (cell_at s q)"
  by (auto simp: RemoveOldConnections_def cell_at_map_entry
      cell_at_fold_erase_ascending erase_ascending_def)

lemma set_unordered_insert [simp]: "set (unordered_insert front x xs) = insert x (set xs)"
  by (auto simp: unordered_insert_def)

lemma EstablishNewConnections_for_Some:
  assumes "EstablishNewConnections_for front this ps s = Some s'" and "this \<in> fst ` set s"
  shows "set ps \<subseteq> fst ` set s \<and> fst ` set s' = fst ` set s \<and>
    set (descending_cells (cell_at s' q)) =
       set (descending_cells (cell_at s q)) \<union> (if q = this then set ps else {}) \<and>
    set (ascending_cells (cell_at s' q)) =
       set (ascending_cells (cell_at s q)) \<union> (if q \<in> set ps then {this} else {}) \<and>
    cell_value (cell_at s' q) = cell_value (cell_at s q)"
  using assms
proof (induction ps arbitrary: s)
  case Nil
  then show ?case by simp
next
  case (Cons p ps)
  from Cons.prems(1) obtain cell where p: "map_of s p = Some cell"
    by (auto split: option.splits)
  define s1 where "s1 = AList.map_entry p
      (\<lambda>c. c\<lparr>ascending_cells := unordered_insert front this (ascending_cells c)\<rparr>)
      (AList.map_entry this
         (\<lambda>c. c\<lparr>descending_cells := unordered_insert front p (descending_cells c)\<rparr>) s)"
  from Cons.prems(1) p have rest: "EstablishNewConnections_for front this ps s1 = Some s'"
    by (simp add: s1_def)
  have k1: "fst ` set s1 = fst ` set s" by (simp add: s1_def)
  from p have pk: "p \<in> fst ` set s" by (simp add: in_keys_iff)
  have d1: "set (descending_cells (cell_at s1 q)) =
      set (descending_cells (cell_at s q)) \<union> (if q = this then {p} else {})"
    using Cons.prems(2) pk by (auto simp: s1_def cell_at_map_entry)
  have a1: "set (ascending_cells (cell_at s1 q)) =
      set (ascending_cells (cell_at s q)) \<union> (if q = p then {this} else {})"
    using Cons.prems(2) pk by (auto simp: s1_def cell_at_map_entry)
  have v1: "cell_value (cell_at s1 q) = cell_value (cell_at s q)"
    by (auto simp: s1_def cell_at_map_entry)
  from Cons.IH[OF rest] Cons.prems(2) k1
  have ih: "set ps \<subseteq> fst ` set s1" "fst ` set s' = fst ` set s1"
    "set (descending_cells (cell_at s' q)) =
       set (descending_cells (cell_at s1 q)) \<union> (if q = this then set ps else {})"
    "set (ascending_cells (cell_at s' q)) =
       set (ascending_cells (cell_at s1 q)) \<union> (if q \<in> set ps then {this} else {})"
    "cell_value (cell_at s' q) = cell_value (cell_at s1 q)"
    by simp_all
  show ?case
    using ih(1,2) k1 pk by (auto simp: ih(3,4,5) d1 a1 v1)
qed

lemma cell_at_erase_caches: "cell_at (erase_caches s) p = InvalidateCache (cell_at s p)"
  by (auto simp: cell_at_def map_of_erase_caches InvalidateCache_def fresh_Cell_def split: option.splits)

lemma edges_InvalidateCache [simp]:
  "descending_cells (InvalidateCache c) = descending_cells c"
  "ascending_cells (InvalidateCache c) = ascending_cells c"
  by (auto simp: InvalidateCache_def split: option.splits CellValue.splits)

lemma keys_erase_caches: "fst ` set (erase_caches s) = fst ` set s"
  by (force simp: erase_caches_def)

lemma same_edges:
  assumes "erase_caches s' = erase_caches s"
  shows "fst ` set s' = fst ` set s"
    and "descending_cells (cell_at s' p) = descending_cells (cell_at s p)"
    and "ascending_cells (cell_at s' p) = ascending_cells (cell_at s p)"
proof -
  show "fst ` set s' = fst ` set s"
    using assms keys_erase_caches by metis
  have "InvalidateCache (cell_at s' p) = InvalidateCache (cell_at s p)"
    using assms by (simp flip: cell_at_erase_caches)
  then show "descending_cells (cell_at s' p) = descending_cells (cell_at s p)"
    and "ascending_cells (cell_at s' p) = ascending_cells (cell_at s p)"
    by (metis edges_InvalidateCache(1), metis edges_InvalidateCache(2))
qed

lemma InvalidateReferencedCellsCache_for_erase_caches:
  "erase_caches (fst (InvalidateReferencedCellsCache_for ps sv)) = erase_caches (fst sv)"
proof (induction ps sv rule: InvalidateReferencedCellsCache_for.induct)
  case (1 s visited)
  then show ?case by simp
next
  case (2 p rest s visited)
  show ?case
  proof (cases "p \<in> visited")
    case True
    then show ?thesis by simp
  next
    case unvisited: False
    show ?thesis
    proof (cases "IsCacheValid (cell_value (cell_at s p))")
      case True
      with unvisited "2.IH"(1,2) show ?thesis
        by (simp add: erase_caches_map_entry)
    next
      case False
      with unvisited "2.IH"(3) show ?thesis by simp
    qed
  qed
qed

lemma InvalidateReferencedCellsCache_erase_caches:
  "erase_caches (fst (InvalidateReferencedCellsCache this (s, visited))) = erase_caches s"
  by (simp add: InvalidateReferencedCellsCache_def InvalidateReferencedCellsCache_for_erase_caches)

lemma edges_ok_cong:
  assumes "fst ` set s' = fst ` set s"
    and "\<And>p. descending_cells (cell_at s' p) = descending_cells (cell_at s p)"
    and "\<And>p. ascending_cells (cell_at s' p) = ascending_cells (cell_at s p)"
  shows "edges_ok s' = edges_ok s"
  by (simp add: edges_ok_def edges_symmetric_def edges_closed_def assms)

lemma edges_ok_erase_caches:
  assumes "erase_caches s' = erase_caches s"
  shows "edges_ok s' = edges_ok s"
  by (rule edges_ok_cong) (rule same_edges[OF assms])+

lemma edges_ok_set_value:
  "edges_ok (AList.map_entry this (\<lambda>cell. cell\<lparr>cell_value := v\<rparr>) s) = edges_ok s"
proof (rule edges_ok_cong)
  show "fst ` set (AList.map_entry this (\<lambda>cell. cell\<lparr>cell_value := v\<rparr>) s) = fst ` set s"
    by simp
  show "descending_cells (cell_at (AList.map_entry this (\<lambda>cell. cell\<lparr>cell_value := v\<rparr>) s) p) =
      descending_cells (cell_at s p)" for p
    by (simp add: cell_at_map_entry)
  show "ascending_cells (cell_at (AList.map_entry this (\<lambda>cell. cell\<lparr>cell_value := v\<rparr>) s) p) =
      ascending_cells (cell_at s p)" for p
    by (simp add: cell_at_map_entry)
qed

lemma edges_ok_RemoveOldConnections:
  assumes "edges_ok s" and "this \<in> fst ` set s"
  shows "edges_ok (RemoveOldConnections this s)"
  using assms
  unfolding edges_ok_def edges_symmetric_def edges_closed_def
  by (simp add: descending_RemoveOldConnections ascending_RemoveOldConnections) blast

lemma edges_ok_EstablishNewConnections_for:
  assumes "edges_ok s" and "this \<in> fst ` set s"
    and "EstablishNewConnections_for front this ps s = Some s'"
  shows "edges_ok s'"
proof -
  note e = EstablishNewConnections_for_Some[OF assms(3,2)]
  from e[of this] have ps: "set ps \<subseteq> fst ` set s" and k: "fst ` set s' = fst ` set s"
    by simp_all
  have d: "set (descending_cells (cell_at s' q)) =
       set (descending_cells (cell_at s q)) \<union> (if q = this then set ps else {})" for q
    using e[of q] by simp
  have a: "set (ascending_cells (cell_at s' q)) =
       set (ascending_cells (cell_at s q)) \<union> (if q \<in> set ps then {this} else {})" for q
    using e[of q] by simp
  from assms(1,2) ps show ?thesis
    unfolding edges_ok_def edges_symmetric_def edges_closed_def
    by (simp add: k d a)
qed

lemma edges_ok_InvalidateReferencedCellsCache:
  "edges_ok (fst (InvalidateReferencedCellsCache this (s, visited))) = edges_ok s"
  by (rule edges_ok_erase_caches) (rule InvalidateReferencedCellsCache_erase_caches)

lemma edges_ok_EstablishNewConnections:
  assumes "edges_ok s" and "this \<in> fst ` set s"
    and "EstablishNewConnections env this f s = Some s'"
  shows "edges_ok s'"
  using assms by (auto simp: EstablishNewConnections_def intro: edges_ok_EstablishNewConnections_for)

lemma edges_ok_Cell_Set:
  assumes "edges_ok s" and "Cell_Set env this text s = (r, s')"
  shows "edges_ok s'"
proof (cases "map_of s this = None")
  case True
  with assms show ?thesis by (simp add: Cell_Set_def)
next
  case False
  then obtain cell where cell: "map_of s this = Some cell" by auto
  then have present: "this \<in> fst ` set s" by (simp add: in_keys_iff)
  show ?thesis
  proof (cases "TryCreateCell env text")
    case (Inl e)
    with assms cell show ?thesis by (simp add: Cell_Set_def)
  next
    case (Inr tmp)
    define s1 where "s1 = AList.map_entry this (\<lambda>cell. cell\<lparr>cell_value := Some tmp\<rparr>) s"
    define s2 where "s2 = (if descending_cells (cell_at s1 this) \<noteq> []
        then RemoveOldConnections this s1 else s1)"
    have ok1: "edges_ok s1" and k1: "this \<in> fst ` set s1"
      using assms(1) present by (simp_all add: s1_def edges_ok_set_value)
    then have ok2: "edges_ok s2" and k2: "this \<in> fst ` set s2"
      by (simp_all add: s2_def edges_ok_RemoveOldConnections)
    show ?thesis
    proof (cases "HasCircularDependency s this (Some tmp) {this}")
      case Found
      with assms cell Inr show ?thesis by (simp add: Cell_Set_def)
    next
      case Crashed
      with assms cell Inr show ?thesis by (simp add: Cell_Set_def)
    next
      case (NotFound visited)
      with cell Inr have eq: "Cell_Set env this text s =
          (case (case TryInterpretAsFormula (Some tmp) of
                   None \<Rightarrow> Some s2
                 | Some (f, c) \<Rightarrow> EstablishNewConnections env this f s2) of
             None \<Rightarrow> (Some NullPointerDereference, s2)
           | Some s3 \<Rightarrow>
               (None,
                if ascending_cells (cell_at s3 this) \<noteq> []
                then fst (InvalidateReferencedCellsCache this (s3, {this}))
                else s3))"
        unfolding s2_def s1_def Cell_Set_def Let_def by simp
      show ?thesis
      proof (cases "case TryInterpretAsFormula (Some tmp) of
                      None \<Rightarrow> Some s2
                    | Some (f, c) \<Rightarrow> EstablishNewConnections env this f s2")
        case None
        with assms(2) eq have "s' = s2" by simp
        with ok2 show ?thesis by simp
      next
        case (Some s3)
        have ok3: "edges_ok s3"
          using Some ok2 k2
          by (auto split: option.splits prod.splits intro: edges_ok_EstablishNewConnections)
        from assms(2) eq Some
        have "s' = (if ascending_cells (cell_at s3 this) \<noteq> []
                    then fst (InvalidateReferencedCellsCache this (s3, {this})) else s3)"
          by simp
        with ok3 show ?thesis
          by (simp add: edges_ok_InvalidateReferencedCellsCache)
      qed
    qed
  qed
qed

lemma edges_ok_Cell_Clear:
  assumes "edges_ok s" and "Cell_Clear this s = (r, s')"
  shows "edges_ok s'"
proof (cases "map_of s this = None")
  case True
  with assms show ?thesis by (simp add: Cell_Clear_def)
next
  case False
  then obtain cell where cell: "map_of s this = Some cell" by auto
  then have present: "this \<in> fst ` set s" by (simp add: in_keys_iff)
  define s1 where "s1 = (if descending_cells (cell_at s this) \<noteq> []
      then RemoveOldConnections this s else s)"
  define s2 where "s2 = (if ascending_cells (cell_at s1 this) \<noteq> []
      then fst (InvalidateReferencedCellsCache this (s1, {this})) else s1)"
  have ok1: "edges_ok s1"
    using assms(1) present by (simp add: s1_def edges_ok_RemoveOldConnections)
  then have ok2: "edges_ok s2"
    by (simp add: s2_def edges_ok_InvalidateReferencedCellsCache)
  from assms(2) cell have "s' = AList.map_entry this (\<lambda>cell. cell\<lparr>cell_value := Some EmptyCellValue\<rparr>)
      (if cell_value (cell_at s this) \<noteq> None
       then AList.map_entry this (\<lambda>cell. cell\<lparr>cell_value := None\<rparr>) s2 else s)"
    unfolding s2_def s1_def Cell_Clear_def Let_def by auto
  with ok2 assms(1) show ?thesis
    by (simp add: edges_ok_set_value)
qed

lemma edges_ok_Cell_GetValue:
  assumes "edges_ok s" and "Cell_GetValue fuel env this s = Some (r, s')"
  shows "edges_ok s'"
  using assms edges_ok_erase_caches[OF Cell_GetValue_frame[OF assms(2)]] by simp

lemma cell_at_append_fresh:
  "cell_at (s @ [(p, fresh_Cell)]) q = cell_at s q"
  by (simp add: cell_at_def map_add_def split: option.splits)

lemma edges_ok_create:
  assumes "edges_ok s"
  shows "edges_ok (s @ [(p, fresh_Cell)])"
proof -
  have d: "set (descending_cells (cell_at s q)) \<subseteq> fst ` set s" for q
    using assms by (cases "q \<in> fst ` set s")
      (auto simp: edges_ok_def edges_closed_def cell_at_absent fresh_Cell_def)
  have a: "set (ascending_cells (cell_at s q)) \<subseteq> fst ` set s" for q
    using assms by (cases "q \<in> fst ` set s")
      (auto simp: edges_ok_def edges_closed_def cell_at_absent fresh_Cell_def)
  have sym: "(b \<in> set (descending_cells (cell_at s a))) = (a \<in> set (ascending_cells (cell_at s b)))"
    for a b
  proof (cases "a \<in> fst ` set s \<and> b \<in> fst ` set s")
    case True
    with assms show ?thesis unfolding edges_ok_def edges_symmetric_def by blast
  next
    case False
    then show ?thesis using d[of a] a[of b]
      by (auto simp: cell_at_absent fresh_Cell_def)
  qed
  have k: "fst ` set (s @ [(p, fresh_Cell)]) = insert p (fst ` set s)"
    by simp
  show ?thesis
    unfolding edges_ok_def edges_symmetric_def edges_closed_def k cell_at_append_fresh
    using d a sym by blast
qed

lemma edges_ok_empty: "edges_ok []"
  by (simp add: edges_ok_def edges_symmetric_def edges_closed_def)

lemma reachable_edges_ok: "reachable env s \<Longrightarrow> edges_ok s"
proof (induction rule: reachable.induct)
  case empty
  show ?case by (rule edges_ok_empty)
next
  case (create s p)
  then show ?case by (simp add: edges_ok_create)
next
  case (Set s this input r s')
  from Set.IH Set.hyps(2) show ?case by (rule edges_ok_Cell_Set)
next
  case (Clear s this s')
  from Clear.IH Clear.hyps(2) show ?case by (rule edges_ok_Cell_Clear)
next
  case (GetValue s fuel this v s')
  from GetValue.IH GetValue.hyps(2) show ?case by (rule edges_ok_Cell_GetValue)
qed

text \<open>
  C9. After every public operation, for all cells A and B of the sheet, B is in the
  outgoing (descending) set of A if and only if A is in the incoming (ascending) set of B.
\<close>

theorem edges_symmetric_reachable:
  assumes "reachable env s" and "map_of s a = Some cell_a" and "map_of s b = Some cell_b"
  shows "b \<in> set (descending_cells cell_a) \<longleftrightarrow> a \<in> set (ascending_cells cell_b)"
proof -
  from assms(1) have "edges_symmetric s"
    using reachable_edges_ok by (simp add: edges_ok_def)
  moreover from assms(2,3) have "a \<in> fst ` set s" "b \<in> fst ` set s"
    by (simp_all add: in_keys_iff)
  moreover from assms(2,3) have "cell_at s a = cell_a" "cell_at s b = cell_b"
    by (simp_all add: cell_at_def)
  ultimately show ?thesis
    unfolding edges_symmetric_def by blast
qed

lemma reachable_four_cells: "reachable env four_cells"
proof -
  have "reachable env ([] @ [((0, 0), fresh_Cell)])"
    by (rule reachable.create[OF reachable.empty]) simp
  then have "reachable env (([] @ [((0, 0), fresh_Cell)]) @ [((0, 1), fresh_Cell)])"
    by (rule reachable.create) simp
  then have "reachable env ((([] @ [((0, 0), fresh_Cell)]) @ [((0, 1), fresh_Cell)]) @ [((0, 2), fresh_Cell)])"
    by (rule reachable.create) simp
  then have "reachable env (((([] @ [((0, 0), fresh_Cell)]) @ [((0, 1), fresh_Cell)]) @
      [((0, 2), fresh_Cell)]) @ [((0, 3), fresh_Cell)])"
    by (rule reachable.create) simp
  then show ?thesis by (simp add: four_cells_def)
qed

lemma reachable_snd_Cell_Set:
  "reachable env s \<Longrightarrow> fst (Cell_Set env this input s) \<noteq> Some NullPointerDereference \<Longrightarrow>
   reachable env (snd (Cell_Set env this input s))"
  by (rule reachable.Set[where r = "fst (Cell_Set env this input s)"]) simp_all

lemma reachable_scenario_before: "reachable (scenario_env False) (scenario_before False)"
proof -
  have 1: "reachable (scenario_env False) (after_A1 False)"
    unfolding after_A1_def by (rule reachable_snd_Cell_Set[OF reachable_four_cells]) code_simp
  have 2: "reachable (scenario_env False) (after_B1 False)"
    unfolding after_B1_def by (rule reachable_snd_Cell_Set[OF 1]) code_simp
  have 3: "reachable (scenario_env False) (after_C1 False)"
    unfolding after_C1_def by (rule reachable_snd_Cell_Set[OF 2]) code_simp
  show ?thesis
    unfolding scenario_before_def by (rule reachable_snd_Cell_Set[OF 3]) code_simp
qed

theorem edges_symmetric_reachable_witness:
  "reachable (scenario_env False) (scenario_before False) \<and>
   (0, 0) \<in> set (descending_cells (cell_at (scenario_before False) (0, 1))) \<and>
   (0, 1) \<in> set (ascending_cells (cell_at (scenario_before False) (0, 0)))"
proof -
  have a: "map_of (scenario_before False) (0, 1) = Some (cell_at (scenario_before False) (0, 1))"
    by code_simp
  have b: "map_of (scenario_before False) (0, 0) = Some (cell_at (scenario_before False) (0, 0))"
    by code_simp
  have out: "(0, 0) \<in> set (descending_cells (cell_at (scenario_before False) (0, 1)))"
    by code_simp
  with edges_symmetric_reachable[OF reachable_scenario_before a b] reachable_scenario_before
  show ?thesis by simp
qed

subsection \<open>The reference graph\<close>

lemma HasCircularDependency_for_Found:
  "HasCircularDependency_for s reference ps visited = Found \<Longrightarrow>
   \<exists>p \<in> set ps. (p, reference) \<in> (references s)\<^sup>*"
proof (induction s reference ps visited rule: HasCircularDependency_for.induct)
  case (1 s reference visited)
  then show ?case by simp
next
  case (2 s reference position rest visited)
  from "2.prems" obtain cell where cell: "map_of s position = Some cell"
    by (auto split: option.splits)
  show ?case
  proof (cases "position = reference")
    case True
    then show ?thesis by auto
  next
    case other: False
    show ?thesis
    proof (cases "position \<in> visited")
      case True
      with "2.prems" cell other "2.IH"(3)[OF cell other] show ?thesis by auto
    next
      case False
      show ?thesis
      proof (cases "HasCircularDependency_for s reference (referenced_by (cell_value cell)) (insert position visited)")
        case Found
        from "2.IH"(1)[OF cell other False Found] obtain q
          where q: "q \<in> set (referenced_by (cell_value cell))" "(q, reference) \<in> (references s)\<^sup>*"
          by blast
        from q(1) cell have "(position, q) \<in> references s"
          by (simp add: references_def cell_at_def)
        from this q(2) have "(position, reference) \<in> (references s)\<^sup>*"
          by (rule converse_rtrancl_into_rtrancl)
        then show ?thesis by auto
      next
        case (NotFound visited')
        with "2.prems" cell other False "2.IH"(2)[OF cell other False NotFound] show ?thesis
          by auto
      next
        case Crashed
        with "2.prems" cell other False show ?thesis by simp
      qed
    qed
  qed
qed

lemma HasCircularDependency_for_NotFound:
  "HasCircularDependency_for s reference ps visited = NotFound visited' \<Longrightarrow>
   visited \<subseteq> visited' \<and> set ps \<subseteq> visited' - {reference} \<and>
   (\<forall>v \<in> visited' - visited. set (referenced_by (cell_value (cell_at s v))) \<subseteq> visited' - {reference})"
proof (induction s reference ps visited arbitrary: visited' rule: HasCircularDependency_for.induct)
  case (1 s reference visited)
  then show ?case by simp
next
  case (2 s reference position rest visited)
  from "2.prems" obtain cell where cell: "map_of s position = Some cell"
    by (auto split: option.splits)
  from "2.prems" cell have other: "position \<noteq> reference"
    by (auto split: if_splits)
  show ?case
  proof (cases "position \<in> visited")
    case True
    with "2.prems" cell other have "HasCircularDependency_for s reference rest visited = NotFound visited'"
      by simp
    from "2.IH"(3)[OF cell other _ this] True other show ?thesis by auto
  next
    case False
    from "2.prems" cell other False obtain mid
      where inner: "HasCircularDependency_for s reference (referenced_by (cell_value cell))
          (insert position visited) = NotFound mid"
        and outer: "HasCircularDependency_for s reference rest mid = NotFound visited'"
      by (auto split: search.splits)
    have i: "insert position visited \<subseteq> mid"
      "set (referenced_by (cell_value cell)) \<subseteq> mid - {reference}"
      "\<forall>v \<in> mid - insert position visited.
          set (referenced_by (cell_value (cell_at s v))) \<subseteq> mid - {reference}"
      using "2.IH"(1)[OF cell other False inner] by simp_all
    have out: "mid \<subseteq> visited'" "set rest \<subseteq> visited' - {reference}"
      "\<forall>v \<in> visited' - mid.
          set (referenced_by (cell_value (cell_at s v))) \<subseteq> visited' - {reference}"
      using "2.IH"(2)[OF cell other False inner outer] by simp_all
    have c: "cell_at s position = cell" using cell by (simp add: cell_at_def)
    have "\<forall>v \<in> visited' - visited.
        set (referenced_by (cell_value (cell_at s v))) \<subseteq> visited' - {reference}"
    proof
      fix v assume v: "v \<in> visited' - visited"
      consider "v = position" | "v \<in> mid - insert position visited" | "v \<in> visited' - mid"
        using v by blast
      then show "set (referenced_by (cell_value (cell_at s v))) \<subseteq> visited' - {reference}"
      proof cases
        case 1
        with i(2) out(1) c show ?thesis by auto
      next
        case 2
        with i(3) out(1) show ?thesis by blast
      next
        case 3
        with out(3) show ?thesis by blast
      qed
    qed
    with i(1) out(1,2) other show ?thesis by auto
  qed
qed

lemma HasCircularDependency_for_no_crash:
  "references_closed s \<Longrightarrow> set ps \<subseteq> fst ` set s \<Longrightarrow>
   HasCircularDependency_for s reference ps visited \<noteq> Crashed"
proof (induction s reference ps visited rule: HasCircularDependency_for.induct)
  case (1 s reference visited)
  show ?case by simp
next
  case (2 s reference position rest visited)
  from "2.prems"(2) obtain cell where cell: "map_of s position = Some cell"
    by (auto simp: in_keys_iff)
  then have c: "cell_at s position = cell" by (simp add: cell_at_def)
  from "2.prems" c have refs: "set (referenced_by (cell_value cell)) \<subseteq> fst ` set s"
    by (auto simp: references_closed_def)
  from "2.prems"(2) have rest: "set rest \<subseteq> fst ` set s" by simp
  show ?case
  proof (cases "position = reference")
    case True
    with cell show ?thesis by simp
  next
    case other: False
    show ?thesis
    proof (cases "position \<in> visited")
      case True
      with cell other "2.IH"(3)[OF cell other _ "2.prems"(1) rest] show ?thesis by simp
    next
      case False
      show ?thesis
      proof (cases "HasCircularDependency_for s reference (referenced_by (cell_value cell)) (insert position visited)")
        case Found
        with cell other False show ?thesis by simp
      next
        case (NotFound mid)
        with cell other False "2.IH"(2)[OF cell other False NotFound "2.prems"(1) rest]
        show ?thesis by simp
      next
        case Crashed
        with "2.IH"(1)[OF cell other False "2.prems"(1) refs] show ?thesis by simp
      qed
    qed
  qed
qed

lemma closed_no_path:
  assumes "set ps \<subseteq> W" and "\<forall>v \<in> W. set (referenced_by (cell_value (cell_at s v))) \<subseteq> W"
    and "p \<in> set ps" and "(p, q) \<in> (references s)\<^sup>*"
  shows "q \<in> W"
  using assms(4,3,1,2)
  by (induction rule: rtrancl_induct) (auto simp: references_def)

text \<open>
  Where every referenced position has a cell, the search dereferences no null pointer and
  returns true exactly when \<open>this\<close> is reachable from a position of \<open>current\<close> along the
  references of the formulas of the sheet.
\<close>

lemma HasCircularDependency_finds_reachable:
  assumes "references_closed s" and "set (referenced_by current) \<subseteq> fst ` set s"
  shows "HasCircularDependency s this current {this} \<noteq> Crashed \<and>
         (HasCircularDependency s this current {this} = Found \<longleftrightarrow>
            (\<exists>p \<in> set (referenced_by current). (p, this) \<in> (references s)\<^sup>*))"
proof (cases "HasCircularDependency s this current {this}")
  case Found
  then show ?thesis
    using HasCircularDependency_for_Found[of s this "referenced_by current" "{this}"]
    by (simp add: HasCircularDependency_def)
next
  case (NotFound visited')
  then have nf: "HasCircularDependency_for s this (referenced_by current) {this} = NotFound visited'"
    by (simp add: HasCircularDependency_def)
  define W where "W = visited' - {this}"
  from HasCircularDependency_for_NotFound[OF nf]
  have "set (referenced_by current) \<subseteq> W"
    and "\<forall>v \<in> W. set (referenced_by (cell_value (cell_at s v))) \<subseteq> W"
    by (auto simp: W_def)
  then have "\<not> (\<exists>p \<in> set (referenced_by current). (p, this) \<in> (references s)\<^sup>*)"
    using closed_no_path[of "referenced_by current" W s _ this] by (auto simp: W_def)
  with NotFound show ?thesis by simp
next
  case Crashed
  with HasCircularDependency_for_no_crash[OF assms, of this "{this}"] show ?thesis
    by (simp add: HasCircularDependency_def)
qed

lemma EstablishNewConnections_for_present:
  "set ps \<subseteq> fst ` set s \<Longrightarrow> EstablishNewConnections_for front this ps s \<noteq> None"
proof (induction ps arbitrary: s)
  case Nil
  show ?case by simp
next
  case (Cons p ps)
  from Cons.prems obtain cell where "map_of s p = Some cell"
    by (auto simp: in_keys_iff)
  moreover from Cons.prems have "set ps \<subseteq> fst ` set (AList.map_entry p
      (\<lambda>c. c\<lparr>ascending_cells := unordered_insert front this (ascending_cells c)\<rparr>)
      (AList.map_entry this
         (\<lambda>c. c\<lparr>descending_cells := unordered_insert front p (descending_cells c)\<rparr>) s))"
    by simp
  ultimately show ?case using Cons.IH by simp
qed

lemma referenced_by_InvalidateCache [simp]:
  "referenced_by (cell_value (InvalidateCache c)) = referenced_by (cell_value c)"
  by (simp add: InvalidateCache_def referenced_by_def TryInterpretAsFormula_def
      split: option.splits CellValue.splits)

lemma same_references:
  assumes "erase_caches s' = erase_caches s"
  shows "referenced_by (cell_value (cell_at s' q)) = referenced_by (cell_value (cell_at s q))"
proof -
  have "InvalidateCache (cell_at s' q) = InvalidateCache (cell_at s q)"
    using assms by (simp flip: cell_at_erase_caches)
  then show ?thesis by (metis referenced_by_InvalidateCache)
qed

lemma formula_InvalidateCache:
  "map_option fst (TryInterpretAsFormula (cell_value (InvalidateCache c))) =
   map_option fst (TryInterpretAsFormula (cell_value c))"
  by (simp add: InvalidateCache_def TryInterpretAsFormula_def split: option.splits CellValue.splits)

lemma same_formula:
  assumes "erase_caches s' = erase_caches s"
  shows "formula_at s' q = formula_at s q"
proof -
  have "InvalidateCache (cell_at s' q) = InvalidateCache (cell_at s q)"
    using assms by (simp flip: cell_at_erase_caches)
  then show ?thesis unfolding formula_at_def by (metis formula_InvalidateCache)
qed

lemma Cell_Set_success:
  assumes "Cell_Set env this input s = (None, s')"
  shows "\<exists>tmp visited. TryCreateCell env input = Inr tmp \<and>
     HasCircularDependency s this (Some tmp) {this} = NotFound visited \<and> this \<in> fst ` set s"
  using assms
  by (auto simp: Cell_Set_def Let_def in_keys_iff
      split: if_splits sum.splits search.splits option.splits prod.splits)

lemma Cell_Set_success_effect:
  assumes "Cell_Set env this input s = (None, s')" and "TryCreateCell env input = Inr tmp"
  shows "fst ` set s' = fst ` set s \<and>
    referenced_by (cell_value (cell_at s' q)) =
      (if q = this then referenced_by (Some tmp) else referenced_by (cell_value (cell_at s q))) \<and>
    set (descending_cells (cell_at s' q)) =
      (if q = this then set (referenced_by (Some tmp)) else set (descending_cells (cell_at s q))) \<and>
    formula_at s' q =
      (if q = this then map_option fst (TryInterpretAsFormula (Some tmp)) else formula_at s q)"
proof -
  from Cell_Set_success[OF assms(1)] assms(2) obtain visited
    where nf: "HasCircularDependency s this (Some tmp) {this} = NotFound visited"
      and present: "this \<in> fst ` set s"
    by auto
  then obtain cell where cell: "map_of s this = Some cell" by (auto simp: in_keys_iff)
  define s1 where "s1 = AList.map_entry this (\<lambda>cell. cell\<lparr>cell_value := Some tmp\<rparr>) s"
  define s2 where "s2 = (if descending_cells (cell_at s1 this) \<noteq> []
      then RemoveOldConnections this s1 else s1)"
  from cell assms(2) nf have eq: "Cell_Set env this input s =
      (case (case TryInterpretAsFormula (Some tmp) of
               None \<Rightarrow> Some s2
             | Some (f, c) \<Rightarrow> EstablishNewConnections env this f s2) of
         None \<Rightarrow> (Some NullPointerDereference, s2)
       | Some s3 \<Rightarrow>
           (None,
            if ascending_cells (cell_at s3 this) \<noteq> []
            then fst (InvalidateReferencedCellsCache this (s3, {this}))
            else s3))"
    unfolding s2_def s1_def Cell_Set_def Let_def by simp
  have k1: "fst ` set s1 = fst ` set s" by (simp add: s1_def)
  have v1: "cell_value (cell_at s1 x) = (if x = this then Some tmp else cell_value (cell_at s x))" for x
    using present by (simp add: s1_def cell_at_map_entry)
  have d1: "descending_cells (cell_at s1 x) = descending_cells (cell_at s x)" for x
    by (simp add: s1_def cell_at_map_entry)
  have k2: "fst ` set s2 = fst ` set s" by (simp add: s2_def k1)
  have v2: "cell_value (cell_at s2 q) = (if q = this then Some tmp else cell_value (cell_at s q))"
    by (simp add: s2_def cell_value_RemoveOldConnections v1)
  have p1: "this \<in> fst ` set s1" using present k1 by simp
  have d2: "set (descending_cells (cell_at s2 q)) =
      (if q = this then {} else set (descending_cells (cell_at s q)))"
  proof (cases "descending_cells (cell_at s1 this) \<noteq> []")
    case True
    then have "s2 = RemoveOldConnections this s1" by (simp add: s2_def)
    then show ?thesis by (simp add: descending_RemoveOldConnections[OF p1] d1)
  next
    case False
    then have "s2 = s1" by (simp add: s2_def)
    with False show ?thesis by (simp add: d1)
  qed
  obtain s3 where s3: "(case TryInterpretAsFormula (Some tmp) of
               None \<Rightarrow> Some s2
             | Some (f, c) \<Rightarrow> EstablishNewConnections env this f s2) = Some s3"
    and s': "s' = (if ascending_cells (cell_at s3 this) \<noteq> []
            then fst (InvalidateReferencedCellsCache this (s3, {this})) else s3)"
    using assms(1) eq by (auto split: option.splits)
  have e3: "fst ` set s3 = fst ` set s \<and>
      cell_value (cell_at s3 q) = (if q = this then Some tmp else cell_value (cell_at s q)) \<and>
      set (descending_cells (cell_at s3 q)) =
        (if q = this then set (referenced_by (Some tmp)) else set (descending_cells (cell_at s q)))"
  proof (cases "TryInterpretAsFormula (Some tmp)")
    case None
    with s3 have "s3 = s2" by simp
    with None k2 v2 d2 show ?thesis by (simp add: referenced_by_def)
  next
    case (Some fc)
    obtain f c where fc: "fc = (f, c)" by (cases fc)
    with Some s3 have est: "EstablishNewConnections_for (newest_first env) this (referenced_cells f) s2 = Some s3"
      by (simp add: EstablishNewConnections_def)
    from present k2 have "this \<in> fst ` set s2" by simp
    from EstablishNewConnections_for_Some[OF est this, of q] Some fc k2 v2 d2
    show ?thesis by (simp add: referenced_by_def)
  qed
  have er: "erase_caches s' = erase_caches s3"
    by (simp add: s' InvalidateReferencedCellsCache_erase_caches)
  from e3 have f3: "formula_at s3 q =
      (if q = this then map_option fst (TryInterpretAsFormula (Some tmp)) else formula_at s q)"
    by (simp add: formula_at_def)
  from same_edges[OF er] same_references[OF er] e3 same_formula[OF er, of q] f3
  show ?thesis by simp
qed

lemma path_to_source:
  "(q, x) \<in> (R \<union> {x} \<times> T)\<^sup>* \<Longrightarrow> (q, x) \<in> R\<^sup>*"
proof (induction rule: converse_rtrancl_induct)
  case base
  show ?case by simp
next
  case (step y z)
  show ?case
  proof (cases "y = x")
    case True
    then show ?thesis by simp
  next
    case False
    with step.hyps(1) have "(y, z) \<in> R" by auto
    with step.IH show ?thesis by (rule converse_rtrancl_into_rtrancl[rotated])
  qed
qed

lemma acyclic_add_out_edges:
  "acyclic R \<Longrightarrow> \<forall>q \<in> set ts. (q, x) \<notin> R\<^sup>* \<Longrightarrow> acyclic (R \<union> {x} \<times> set ts)"
proof (induction ts)
  case Nil
  then show ?case by simp
next
  case (Cons t ts)
  then have ih: "acyclic (R \<union> {x} \<times> set ts)" by simp
  from Cons.prems(2) have "(t, x) \<notin> R\<^sup>*" by simp
  have "(t, x) \<notin> (R \<union> {x} \<times> set ts)\<^sup>*"
  proof
    assume "(t, x) \<in> (R \<union> {x} \<times> set ts)\<^sup>*"
    then have "(t, x) \<in> R\<^sup>*" by (rule path_to_source)
    with \<open>(t, x) \<notin> R\<^sup>*\<close> show False by contradiction
  qed
  with ih have "acyclic (insert (x, t) (R \<union> {x} \<times> set ts))"
    by (simp only: acyclic_insert simp_thms)
  moreover have "R \<union> {x} \<times> set (t # ts) = insert (x, t) (R \<union> {x} \<times> set ts)"
    by auto
  ultimately show ?case by (simp only:)
qed

lemma acyclic_redirect:
  assumes "acyclic R" and "\<forall>q \<in> set ts. (q, x) \<notin> R\<^sup>*"
  shows "acyclic ((R - {x} \<times> UNIV) \<union> {x} \<times> set ts)"
proof (rule acyclic_add_out_edges)
  show "acyclic (R - {x} \<times> UNIV)"
    using assms(1) by (rule acyclic_subset) blast
  have "(R - {x} \<times> UNIV)\<^sup>* \<subseteq> R\<^sup>*"
    by (rule rtrancl_mono) blast
  with assms(2) show "\<forall>q \<in> set ts. (q, x) \<notin> (R - {x} \<times> UNIV)\<^sup>*"
    by blast
qed

lemma NotFound_unreachable:
  assumes "HasCircularDependency s this current {this} = NotFound visited'"
  shows "\<forall>p \<in> set (referenced_by current). (p, this) \<notin> (references s)\<^sup>*"
proof -
  from assms have nf: "HasCircularDependency_for s this (referenced_by current) {this} = NotFound visited'"
    by (simp add: HasCircularDependency_def)
  define W where "W = visited' - {this}"
  from HasCircularDependency_for_NotFound[OF nf]
  have "set (referenced_by current) \<subseteq> W"
    and "\<forall>v \<in> W. set (referenced_by (cell_value (cell_at s v))) \<subseteq> W"
    by (auto simp: W_def)
  then show ?thesis
    using closed_no_path[of "referenced_by current" W s _ this] by (auto simp: W_def)
qed

lemma references_after_Set:
  assumes "Cell_Set env this input s = (None, s')" and "TryCreateCell env input = Inr tmp"
  shows "references s' = (references s - {this} \<times> UNIV) \<union> {this} \<times> set (referenced_by (Some tmp))"
proof -
  have r: "referenced_by (cell_value (cell_at s' q)) =
      (if q = this then referenced_by (Some tmp) else referenced_by (cell_value (cell_at s q)))" for q
    using Cell_Set_success_effect[OF assms, of q] by simp
  show ?thesis
  proof (rule set_eqI)
    fix e :: "Position \<times> Position"
    obtain p q where e: "e = (p, q)" by (cases e)
    show "e \<in> references s' \<longleftrightarrow>
        e \<in> (references s - {this} \<times> UNIV) \<union> {this} \<times> set (referenced_by (Some tmp))"
      unfolding e using r[of p] by (cases "p = this") (simp_all add: references_def)
  qed
qed

lemma graph_ok_Cell_Set:
  assumes "acyclic (references s)" and "out_is_references s"
    and "Cell_Set env this input s = (None, s')"
  shows "acyclic (references s') \<and> out_is_references s'"
proof -
  from Cell_Set_success[OF assms(3)] obtain tmp visited
    where tmp: "TryCreateCell env input = Inr tmp"
      and nf: "HasCircularDependency s this (Some tmp) {this} = NotFound visited"
    by blast
  from assms(1) NotFound_unreachable[OF nf]
  have "acyclic (references s')"
    unfolding references_after_Set[OF assms(3) tmp] by (rule acyclic_redirect)
  moreover have "out_is_references s'"
    unfolding out_is_references_def
  proof
    fix q
    from assms(2) have "set (descending_cells (cell_at s q)) = set (referenced_by (cell_value (cell_at s q)))"
      unfolding out_is_references_def by blast
    with Cell_Set_success_effect[OF assms(3) tmp, of q]
    show "set (descending_cells (cell_at s' q)) = set (referenced_by (cell_value (cell_at s' q)))"
      by simp
  qed
  ultimately show ?thesis by simp
qed

lemma Cell_Set_thrown:
  assumes "Cell_Set env this input s = (Some e, s')" and "e \<noteq> NullPointerDereference"
  shows "s' = s"
  using assms
  by (auto simp: Cell_Set_def Let_def split: if_splits sum.splits search.splits option.splits prod.splits)

lemma Cell_Clear_effect:
  assumes "Cell_Clear this s = (None, s')" and "out_is_references s"
  shows "referenced_by (cell_value (cell_at s' q)) =
      (if q = this then [] else referenced_by (cell_value (cell_at s q))) \<and>
    set (descending_cells (cell_at s' q)) =
      (if q = this then {} else set (descending_cells (cell_at s q))) \<and>
    formula_at s' q = (if q = this then None else formula_at s q)"
proof -
  from assms(1) obtain cell where cell: "map_of s this = Some cell"
    by (auto simp: Cell_Clear_def split: if_splits)
  then have present: "this \<in> fst ` set s" by (simp add: in_keys_iff)
  define s1 where "s1 = (if descending_cells (cell_at s this) \<noteq> []
      then RemoveOldConnections this s else s)"
  define s2 where "s2 = (if ascending_cells (cell_at s1 this) \<noteq> []
      then fst (InvalidateReferencedCellsCache this (s1, {this})) else s1)"
  define s3 where "s3 = (if cell_value (cell_at s this) \<noteq> None
       then AList.map_entry this (\<lambda>cell. cell\<lparr>cell_value := None\<rparr>) s2 else s)"
  from assms(1) cell have s': "s' = AList.map_entry this (\<lambda>cell. cell\<lparr>cell_value := Some EmptyCellValue\<rparr>) s3"
    unfolding s3_def s2_def s1_def Cell_Clear_def Let_def by auto
  have o: "set (descending_cells (cell_at s x)) = set (referenced_by (cell_value (cell_at s x)))" for x
    using assms(2) unfolding out_is_references_def by blast
  have k1: "fst ` set s1 = fst ` set s" by (simp add: s1_def)
  have v1: "cell_value (cell_at s1 x) = cell_value (cell_at s x)" for x
    by (simp add: s1_def cell_value_RemoveOldConnections)
  have d1: "set (descending_cells (cell_at s1 x)) =
      (if x = this then {} else set (descending_cells (cell_at s x)))" for x
  proof (cases "descending_cells (cell_at s this) \<noteq> []")
    case True
    then have "s1 = RemoveOldConnections this s" by (simp add: s1_def)
    then show ?thesis by (simp add: descending_RemoveOldConnections[OF present])
  next
    case False
    then have "s1 = s" by (simp add: s1_def)
    with False show ?thesis by simp
  qed
  have er: "erase_caches s2 = erase_caches s1"
    by (simp add: s2_def InvalidateReferencedCellsCache_erase_caches)
  have k2: "fst ` set s2 = fst ` set s" using same_edges(1)[OF er] k1 by simp
  have r2: "referenced_by (cell_value (cell_at s2 x)) = referenced_by (cell_value (cell_at s x))" for x
    using same_references[OF er, of x] v1[of x] by simp
  have d2: "set (descending_cells (cell_at s2 x)) =
      (if x = this then {} else set (descending_cells (cell_at s x)))" for x
    using same_edges(2)[OF er, of x] d1[of x] by simp
  have f2: "formula_at s2 x = formula_at s x" for x
    using same_formula[OF er, of x] v1[of x] by (simp add: formula_at_def)
  have k3: "this \<in> fst ` set s3" using present k2 by (simp add: s3_def)
  have f3: "x \<noteq> this \<Longrightarrow> formula_at s3 x = formula_at s x" for x
    using f2[of x] by (simp add: s3_def formula_at_def cell_at_map_entry)
  have r3: "x \<noteq> this \<Longrightarrow>
      referenced_by (cell_value (cell_at s3 x)) = referenced_by (cell_value (cell_at s x))" for x
    using r2[of x] by (simp add: s3_def cell_at_map_entry)
  have d3: "set (descending_cells (cell_at s3 x)) =
      (if x = this then {} else set (descending_cells (cell_at s x)))" for x
  proof (cases "cell_value (cell_at s this) \<noteq> None")
    case True
    then have "s3 = AList.map_entry this (\<lambda>cell. cell\<lparr>cell_value := None\<rparr>) s2"
      by (simp add: s3_def)
    then show ?thesis using d2[of x] d2[of this] by (simp add: cell_at_map_entry)
  next
    case False
    then have "s3 = s" by (simp add: s3_def)
    moreover from False o[of this] have "set (descending_cells (cell_at s this)) = {}"
      by (simp add: referenced_by_def TryInterpretAsFormula_def)
    ultimately show ?thesis by simp
  qed
  show ?thesis
  proof (cases "q = this")
    case True
    with k3 d3[of this] show ?thesis
      by (simp add: s' cell_at_map_entry referenced_by_def TryInterpretAsFormula_def formula_at_def)
  next
    case False
    with r3[of q] d3[of q] f3[of q] show ?thesis
      by (simp add: s' cell_at_map_entry formula_at_def)
  qed
qed

lemma references_after_Clear:
  assumes "Cell_Clear this s = (None, s')" and "out_is_references s"
  shows "references s' \<subseteq> references s"
proof
  fix e :: "Position \<times> Position"
  obtain p q where e: "e = (p, q)" by (cases e)
  assume "e \<in> references s'"
  with Cell_Clear_effect[OF assms, of p] show "e \<in> references s"
    unfolding e by (cases "p = this") (simp_all add: references_def)
qed

lemma graph_ok_Cell_Clear:
  assumes "acyclic (references s)" and "out_is_references s"
    and "Cell_Clear this s = (None, s')"
  shows "acyclic (references s') \<and> out_is_references s'"
proof -
  have "acyclic (references s')"
    using assms(1) references_after_Clear[OF assms(3,2)] by (rule acyclic_subset)
  moreover have "out_is_references s'"
    unfolding out_is_references_def
  proof
    fix q
    from assms(2) have "set (descending_cells (cell_at s q)) = set (referenced_by (cell_value (cell_at s q)))"
      unfolding out_is_references_def by blast
    with Cell_Clear_effect[OF assms(3,2), of q]
    show "set (descending_cells (cell_at s' q)) = set (referenced_by (cell_value (cell_at s' q)))"
      by simp
  qed
  ultimately show ?thesis by simp
qed

lemma graph_ok_same:
  assumes "\<And>q. referenced_by (cell_value (cell_at s' q)) = referenced_by (cell_value (cell_at s q))"
    and "\<And>q. descending_cells (cell_at s' q) = descending_cells (cell_at s q)"
    and "acyclic (references s)" and "out_is_references s"
  shows "acyclic (references s') \<and> out_is_references s'"
proof -
  have "references s' = references s" by (simp add: references_def assms(1))
  moreover have "out_is_references s' = out_is_references s"
    by (simp add: out_is_references_def assms(1,2))
  ultimately show ?thesis using assms(3,4) by simp
qed

lemma reachable_graph_ok: "reachable env s \<Longrightarrow> acyclic (references s) \<and> out_is_references s"
proof (induction rule: reachable.induct)
  case empty
  show ?case
    by (simp add: references_def out_is_references_def cell_at_def fresh_Cell_def
        referenced_by_def TryInterpretAsFormula_def acyclic_def)
next
  case (create s p)
  then have "acyclic (references s)" and "out_is_references s" by simp_all
  then show ?case
    by (rule graph_ok_same[rotated 2]) (simp_all add: cell_at_append_fresh)
next
  case (Set s this input r s')
  show ?case
  proof (cases r)
    case None
    with Set.hyps(2) have ok: "Cell_Set env this input s = (None, s')" by simp
    from Set.IH have "acyclic (references s)" and "out_is_references s" by simp_all
    from this ok show ?thesis by (rule graph_ok_Cell_Set)
  next
    case (Some e)
    with Set.hyps(2,3) have "s' = s" by (auto dest: Cell_Set_thrown)
    with Set.IH show ?thesis by simp
  qed
next
  case (Clear s this s')
  from Clear.IH have "acyclic (references s)" and "out_is_references s" by simp_all
  from this Clear.hyps(2) show ?case by (rule graph_ok_Cell_Clear)
next
  case (GetValue s fuel this v s')
  from GetValue.hyps(2) have er: "erase_caches s' = erase_caches s"
    by (rule Cell_GetValue_frame)
  from GetValue.IH have "acyclic (references s)" and "out_is_references s" by simp_all
  then show ?case
    by (rule graph_ok_same[rotated 2]) (simp_all add: same_references[OF er] same_edges(2)[OF er])
qed

lemma reachable_references_closed:
  assumes "reachable env s"
  shows "references_closed s"
proof -
  from assms have "edges_closed s" and o: "out_is_references s"
    using reachable_edges_ok reachable_graph_ok by (simp_all add: edges_ok_def)
  then show ?thesis
    unfolding references_closed_def edges_closed_def out_is_references_def by metis
qed

text \<open>
  On a sheet reached without a null dereference, for a text whose formula refers only to
  positions that have a cell: \<open>Set\<close> dereferences no null pointer, and it fails with
  \<open>CircularDependency\<close> if and only if the cell is reachable from a referenced position along
  the current formula references (a direct self-reference included).
\<close>

theorem Cell_Set_CircularDependency_iff:
  assumes "reachable env s" and "map_of s this = Some cell"
    and "TryCreateCell env input = Inr tmp"
    and "set (referenced_by (Some tmp)) \<subseteq> fst ` set s"
  shows "fst (Cell_Set env this input s) \<noteq> Some NullPointerDereference \<and>
    (fst (Cell_Set env this input s) = Some CircularDependencyException \<longleftrightarrow>
       (\<exists>p \<in> set (referenced_by (Some tmp)). (p, this) \<in> (references s)\<^sup>*))"
proof -
  note dfs = HasCircularDependency_finds_reachable[OF reachable_references_closed[OF assms(1)] assms(4), of this]
  from assms(2) have present: "this \<in> fst ` set s" by (simp add: in_keys_iff)
  show ?thesis
  proof (cases "HasCircularDependency s this (Some tmp) {this}")
    case Found
    with assms(2,3) have "Cell_Set env this input s = (Some CircularDependencyException, s)"
      by (simp add: Cell_Set_def)
    with dfs Found show ?thesis by simp
  next
    case Crashed
    with dfs show ?thesis by simp
  next
    case (NotFound visited)
    define s1 where "s1 = AList.map_entry this (\<lambda>cell. cell\<lparr>cell_value := Some tmp\<rparr>) s"
    define s2 where "s2 = (if descending_cells (cell_at s1 this) \<noteq> []
        then RemoveOldConnections this s1 else s1)"
    from assms(2,3) NotFound have eq: "Cell_Set env this input s =
        (case (case TryInterpretAsFormula (Some tmp) of
                 None \<Rightarrow> Some s2
               | Some (f, c) \<Rightarrow> EstablishNewConnections env this f s2) of
           None \<Rightarrow> (Some NullPointerDereference, s2)
         | Some s3 \<Rightarrow>
             (None,
              if ascending_cells (cell_at s3 this) \<noteq> []
              then fst (InvalidateReferencedCellsCache this (s3, {this}))
              else s3))"
      unfolding s2_def s1_def Cell_Set_def Let_def by simp
    have k2: "fst ` set s2 = fst ` set s" by (simp add: s2_def s1_def)
    have "(case TryInterpretAsFormula (Some tmp) of
                 None \<Rightarrow> Some s2
               | Some (f, c) \<Rightarrow> EstablishNewConnections env this f s2) \<noteq> None"
    proof (cases "TryInterpretAsFormula (Some tmp)")
      case None
      then show ?thesis by simp
    next
      case (Some fc)
      obtain f c where fc: "fc = (f, c)" by (cases fc)
      with Some assms(4) k2 have "set (referenced_cells f) \<subseteq> fst ` set s2"
        by (simp add: referenced_by_def)
      from EstablishNewConnections_for_present[OF this] Some fc show ?thesis
        by (simp add: EstablishNewConnections_def)
    qed
    with eq have "fst (Cell_Set env this input s) = None"
      by (auto split: option.splits)
    with dfs NotFound show ?thesis by simp
  qed
qed

text \<open>
  On every sheet reached without a null dereference the outgoing sets are the references of
  the formulas, and the graph of outgoing edges has no cycle.
\<close>

theorem reachable_out_edges_acyclic:
  assumes "reachable env s"
  shows "out_edges s = references s \<and> acyclic (out_edges s)"
proof -
  from reachable_graph_ok[OF assms] have a: "acyclic (references s)" and o: "out_is_references s"
    by simp_all
  from o have "set (descending_cells (cell_at s q)) = set (referenced_by (cell_value (cell_at s q)))" for q
    unfolding out_is_references_def by blast
  then have "out_edges s = references s"
    by (simp add: out_edges_def references_def)
  with a show ?thesis by simp
qed

theorem Cell_Set_CircularDependency_iff_witness:
  "reachable (scenario_env False) (scenario_before False) \<and>
   fst (Cell_Set (scenario_env False) (0, 0) ''=A1+B1'' (scenario_before False)) =
     Some CircularDependencyException \<and>
   (\<exists>p \<in> set [(0, 0), (0, 1)]. (p, (0, 0)) \<in> (references (scenario_before False))\<^sup>*)"
proof -
  have present: "map_of (scenario_before False) (0, 0) = Some (cell_at (scenario_before False) (0, 0))"
    by code_simp
  have created: "TryCreateCell (scenario_env False) ''=A1+B1'' =
      Inr (FormulaCellValue (make_Formula (BinaryOpExpr Add (CellExpr (0, 0)) (CellExpr (0, 1)))) None)"
    by code_simp
  have refs: "referenced_by (Some (FormulaCellValue
      (make_Formula (BinaryOpExpr Add (CellExpr (0, 0)) (CellExpr (0, 1)))) None)) = [(0, 0), (0, 1)]"
    by code_simp
  have keys: "fst ` set (scenario_before False) = {(0, 0), (0, 1), (0, 2), (0, 3)}"
    by code_simp
  have inside: "set (referenced_by (Some (FormulaCellValue
      (make_Formula (BinaryOpExpr Add (CellExpr (0, 0)) (CellExpr (0, 1)))) None))) \<subseteq>
      fst ` set (scenario_before False)"
    unfolding refs keys by simp
  have thrown: "fst (Cell_Set (scenario_env False) (0, 0) ''=A1+B1'' (scenario_before False)) =
      Some CircularDependencyException"
    by code_simp
  from Cell_Set_CircularDependency_iff[OF reachable_scenario_before present created inside] thrown
    reachable_scenario_before
  show ?thesis unfolding refs by simp
qed

theorem reachable_out_edges_acyclic_witness:
  "reachable (scenario_env False) (scenario_before False) \<and>
   out_edges (scenario_before False) = references (scenario_before False) \<and>
   acyclic (out_edges (scenario_before False))"
  using reachable_out_edges_acyclic[OF reachable_scenario_before] reachable_scenario_before
  by blast

subsection \<open>Errors are not cached\<close>

lemma ast_make_Formula [simp]: "ast (make_Formula e) = e"
  by (simp add: make_Formula_def)

lemma TryCreateCell_made:
  "TryCreateCell env input = Inr (FormulaCellValue f c) \<Longrightarrow> f = make_Formula (ast f)"
  by (auto simp: TryCreateCell_def ParseFormula_def split: if_splits option.splits sum.splits)

lemma formulas_madeD:
  "formulas_made s \<Longrightarrow> formula_at s p = Some f \<Longrightarrow> f = make_Formula (ast f)"
  unfolding formulas_made_def by blast

lemma formulas_made_same:
  assumes "\<And>q. formula_at s' q = formula_at s q" and "formulas_made s"
  shows "formulas_made s'"
  using assms by (simp add: formulas_made_def)

lemma reachable_formulas_made: "reachable env s \<Longrightarrow> formulas_made s"
proof (induction rule: reachable.induct)
  case empty
  show ?case
    by (simp add: formulas_made_def formula_at_def cell_at_def fresh_Cell_def TryInterpretAsFormula_def)
next
  case (create s p)
  then show ?case
    by (simp add: formulas_made_def formula_at_def cell_at_append_fresh)
next
  case (Set s this input r s')
  show ?case
  proof (cases r)
    case None
    with Set.hyps(2) have ok: "Cell_Set env this input s = (None, s')" by simp
    from Cell_Set_success[OF ok] obtain tmp where tmp: "TryCreateCell env input = Inr tmp"
      by blast
    show ?thesis
      unfolding formulas_made_def
    proof (intro allI impI)
      fix q f
      assume f: "formula_at s' q = Some f"
      show "f = make_Formula (ast f)"
      proof (cases "q = this")
        case True
        with f Cell_Set_success_effect[OF ok tmp, of q]
        have "map_option fst (TryInterpretAsFormula (Some tmp)) = Some f" by simp
        then obtain c where "tmp = FormulaCellValue f c"
          by (auto simp: TryInterpretAsFormula_def split: CellValue.splits)
        with tmp show ?thesis by (auto dest: TryCreateCell_made)
      next
        case False
        with f Cell_Set_success_effect[OF ok tmp, of q] have "formula_at s q = Some f" by simp
        with Set.IH show ?thesis by (rule formulas_madeD)
      qed
    qed
  next
    case (Some e)
    with Set.hyps(2,3) have "s' = s" by (auto dest: Cell_Set_thrown)
    with Set.IH show ?thesis by simp
  qed
next
  case (Clear s this s')
  from Clear.hyps(1) have o: "out_is_references s" using reachable_graph_ok by blast
  show ?case
    unfolding formulas_made_def
  proof (intro allI impI)
    fix q f
    assume "formula_at s' q = Some f"
    with Cell_Clear_effect[OF Clear.hyps(2) o, of q] have "formula_at s q = Some f"
      by (simp split: if_splits)
    with Clear.IH show "f = make_Formula (ast f)" by (rule formulas_madeD)
  qed
next
  case (GetValue s fuel this v s')
  from GetValue.hyps(2) have "erase_caches s' = erase_caches s"
    by (rule Cell_GetValue_frame)
  then have "formula_at s' q = formula_at s q" for q by (rule same_formula)
  from this GetValue.IH show ?case by (rule formulas_made_same)
qed

lemma reads_references:
  assumes "formulas_made s"
  shows "reads s \<subseteq> references s"
proof
  fix e :: "Position \<times> Position"
  obtain p q where e: "e = (p, q)" by (cases e)
  assume "e \<in> reads s"
  then obtain f where f: "formula_at s p = Some f" and q: "q \<in> set (Expr_cells (ast f))"
    by (auto simp: reads_def e)
  from assms f have made: "f = make_Formula (ast f)" by (rule formulas_madeD)
  have "set (referenced_cells (make_Formula (ast f))) = set (Expr_cells (ast f))"
    by (simp add: make_Formula_def set_Formula_referenced_cells GetCells_def)
  with made q have "q \<in> set (referenced_cells f)" by simp
  moreover from f have "referenced_by (cell_value (cell_at s p)) = referenced_cells f"
    by (auto simp: formula_at_def referenced_by_def split: option.splits)
  ultimately show "e \<in> references s" by (simp add: references_def e)
qed

lemma reads_same:
  assumes "erase_caches s' = erase_caches s"
  shows "reads s' = reads s"
  by (simp add: reads_def same_formula[OF assms])

text \<open>
  An evaluation leaves the cell at \<open>q\<close> as it is when it looks up only positions of \<open>U\<close> and
  a read of a position of \<open>U\<close> leaves that cell as it is.
\<close>

lemma Execute_untouched:
  assumes c: "\<And>p s r s'. g p s = Some (r, s') \<Longrightarrow> erase_caches s = E \<Longrightarrow> p \<in> U \<Longrightarrow>
      cell_at s' q = cell_at s q"
    and fr: "\<And>p s r s'. g p s = Some (r, s') \<Longrightarrow> erase_caches s' = erase_caches s"
  shows "Execute g e s = Some (r, s') \<Longrightarrow> erase_caches s = E \<Longrightarrow> set (Expr_cells e) \<subseteq> U \<Longrightarrow>
      cell_at s' q = cell_at s q"
proof (induction e arbitrary: s r s')
  case (NumberExpr d)
  then show ?case by simp
next
  case (CellExpr p)
  then show ?case using c[of p s r s'] by simp
next
  case (BinaryOpExpr op l r')
  from BinaryOpExpr.prems(1) obtain ra s1 where l: "Execute g l s = Some (ra, s1)"
    by (auto split: option.splits)
  from BinaryOpExpr.prems(3) have subl: "set (Expr_cells l) \<subseteq> U" and subr: "set (Expr_cells r') \<subseteq> U"
    by simp_all
  have c1: "cell_at s1 q = cell_at s q"
    using l BinaryOpExpr.prems(2) subl by (rule BinaryOpExpr.IH(1))
  have "erase_caches s1 = erase_caches s"
    using l by (rule Execute_frame[rotated]) (erule fr)
  with BinaryOpExpr.prems(2) have e1: "erase_caches s1 = E" by simp
  show ?case
  proof (cases ra)
    case (Return a)
    with BinaryOpExpr.prems(1) l obtain rb where r: "Execute g r' s1 = Some (rb, s')"
      by (auto split: option.splits outcome.splits)
    have "cell_at s' q = cell_at s1 q"
      using r e1 subr by (rule BinaryOpExpr.IH(2))
    with c1 show ?thesis by simp
  next
    case (Throw e)
    with BinaryOpExpr.prems(1) l have "s' = s1" by simp
    with c1 show ?thesis by simp
  next
    case Undefined
    with BinaryOpExpr.prems(1) l have "s' = s1" by simp
    with c1 show ?thesis by simp
  qed
qed

lemma get_value_untouched:
  assumes c: "\<And>p s r s'. g p s = Some (r, s') \<Longrightarrow> erase_caches s = E \<Longrightarrow> p \<in> U \<Longrightarrow>
      cell_at s' q = cell_at s q"
  shows "get_value g env p s = Some (r, s') \<Longrightarrow> erase_caches s = E \<Longrightarrow> p \<in> U \<Longrightarrow>
      cell_at s' q = cell_at s q"
  by (auto simp: get_value_def split: option.splits outcome.splits prod.splits dest: c)

lemma Formula_Evaluate_untouched:
  assumes c: "\<And>p s r s'. g p s = Some (r, s') \<Longrightarrow> erase_caches s = E \<Longrightarrow> p \<in> U \<Longrightarrow>
      cell_at s' q = cell_at s q"
    and fr: "\<And>p s r s'. g p s = Some (r, s') \<Longrightarrow> erase_caches s' = erase_caches s"
    and ev: "Formula_Evaluate g env f s = Some (r, s')"
    and E: "erase_caches s = E" and sub: "set (Expr_cells (ast f)) \<subseteq> U"
  shows "cell_at s' q = cell_at s q"
proof -
  from ev obtain x where ex: "Execute (get_value g env) (ast f) s = Some (x, s')"
    by (auto simp: Formula_Evaluate_def split: option.splits outcome.splits prod.splits)
  have gc: "cell_at s2' q = cell_at s2 q"
    if "get_value g env p s2 = Some (r2, s2')" "erase_caches s2 = E" "p \<in> U" for p s2 r2 s2'
    using that by (rule get_value_untouched[rotated]) (erule c, assumption+)
  have gf: "erase_caches s2' = erase_caches s2"
    if "get_value g env p s2 = Some (r2, s2')" for p s2 r2 s2'
    using that by (rule get_value_frame[rotated]) (erule fr)
  from ex E sub show ?thesis
    by (rule Execute_untouched[rotated 2]) (erule gc, assumption+, erule gf)
qed

lemma Cell_GetValue_untouched:
  "Cell_GetValue fuel env p s = Some (r, s') \<Longrightarrow> (p, q) \<notin> (reads s)\<^sup>* \<Longrightarrow>
   cell_at s' q = cell_at s q"
proof (induction fuel arbitrary: p s r s')
  case 0
  then show ?case by simp
next
  case (Suc fuel)
  define U where "U = {x. (x, q) \<notin> (reads s)\<^sup>*}"
  have c: "cell_at s2' q = cell_at s2 q"
    if "Cell_GetValue fuel env x s2 = Some (r2, s2')" "erase_caches s2 = erase_caches s" "x \<in> U"
    for x s2 r2 s2'
  proof -
    from that(3) have "(x, q) \<notin> (reads s2)\<^sup>*"
      unfolding reads_same[OF that(2)] by (simp add: U_def)
    with that(1) show ?thesis by (rule Suc.IH)
  qed
  have fr: "erase_caches s2' = erase_caches s2"
    if "Cell_GetValue fuel env x s2 = Some (r2, s2')" for x s2 r2 s2'
    using that by (rule Cell_GetValue_frame)
  from Suc.prems(2) have pq: "p \<noteq> q" by auto
  show ?case
  proof (cases "map_of s p")
    case None
    with Suc.prems(1) show ?thesis by (simp add: CellValue_GetValue_def)
  next
    case (Some cell)
    then have at: "cell_at s p = cell" by (simp add: cell_at_def)
    show ?thesis
    proof (cases "cell_value cell")
      case None
      with Suc.prems(1) Some show ?thesis by (simp add: CellValue_GetValue_def)
    next
      case v: (Some v)
      show ?thesis
      proof (cases v)
        case EmptyCellValue
        with Suc.prems(1) Some v show ?thesis by (simp add: CellValue_GetValue_def)
      next
        case (TextCellValue x)
        with Suc.prems(1) Some v show ?thesis by (simp add: CellValue_GetValue_def)
      next
        case (FormulaCellValue f cache)
        with at v have fa: "formula_at s p = Some f"
          by (simp add: formula_at_def TryInterpretAsFormula_def)
        have sub: "set (Expr_cells (ast f)) \<subseteq> U"
        proof
          fix x assume "x \<in> set (Expr_cells (ast f))"
          with fa have "(p, x) \<in> reads s" by (auto simp: reads_def)
          have "(x, q) \<notin> (reads s)\<^sup>*"
          proof
            assume "(x, q) \<in> (reads s)\<^sup>*"
            with \<open>(p, x) \<in> reads s\<close> have "(p, q) \<in> (reads s)\<^sup>*"
              by (rule converse_rtrancl_into_rtrancl)
            with Suc.prems(2) show False by contradiction
          qed
          then show "x \<in> U" by (simp add: U_def)
        qed
        show ?thesis
        proof (cases cache)
          case (Some d)
          with Suc.prems(1) \<open>map_of s p = Some cell\<close> v FormulaCellValue show ?thesis
            by (simp add: CellValue_GetValue_def FormulaCellValue_GetValue_def)
        next
          case None
          with Suc.prems(1) \<open>map_of s p = Some cell\<close> v FormulaCellValue
          obtain x s1 where ev: "Formula_Evaluate (Cell_GetValue fuel env) env f s = Some (x, s1)"
            and s': "s' = s1 \<or> (\<exists>d. s' = AList.map_entry p (set_cache d) s1)"
            by (auto simp: CellValue_GetValue_def FormulaCellValue_GetValue_def
                split: option.splits outcome.splits prod.splits sum.splits)
          have "cell_at s1 q = cell_at s q"
            using ev refl sub
            by (rule Formula_Evaluate_untouched[rotated 2]) (erule c, assumption+, erule fr)
          with s' pq show ?thesis by (auto simp: cell_at_map_entry)
        qed
      qed
    qed
  qed
qed

lemma error_leaves_cache:
  assumes "reachable env s" and "map_of s this = Some cell"
    and "cell_value cell = Some (FormulaCellValue f cache)"
    and ev: "Formula_Evaluate (Cell_GetValue fuel env) env f s = Some (r, s1)"
  shows "cell_at s1 this = cell_at s this"
proof -
  from assms(1) have "acyclic (references s)" using reachable_graph_ok by blast
  moreover from assms(1) have "reads s \<subseteq> references s"
    by (intro reads_references reachable_formulas_made)
  ultimately have acyc: "acyclic (reads s)" by (rule acyclic_subset)
  from assms(2,3) have fa: "formula_at s this = Some f"
    by (simp add: formula_at_def cell_at_def TryInterpretAsFormula_def)
  define U where "U = {x. (x, this) \<notin> (reads s)\<^sup>*}"
  have sub: "set (Expr_cells (ast f)) \<subseteq> U"
  proof
    fix x assume "x \<in> set (Expr_cells (ast f))"
    with fa have edge: "(this, x) \<in> reads s" by (auto simp: reads_def)
    have "(x, this) \<notin> (reads s)\<^sup>*"
    proof
      assume "(x, this) \<in> (reads s)\<^sup>*"
      with edge have "(this, this) \<in> (reads s)\<^sup>+" by (rule rtrancl_into_trancl2)
      with acyc show False unfolding acyclic_def by blast
    qed
    then show "x \<in> U" by (simp add: U_def)
  qed
  have c: "cell_at s2' this = cell_at s2 this"
    if "Cell_GetValue fuel env x s2 = Some (r2, s2')" "erase_caches s2 = erase_caches s" "x \<in> U"
    for x s2 r2 s2'
  proof -
    from that(3) have "(x, this) \<notin> (reads s2)\<^sup>*"
      unfolding reads_same[OF that(2)] by (simp add: U_def)
    with that(1) show ?thesis by (rule Cell_GetValue_untouched)
  qed
  have fr: "erase_caches s2' = erase_caches s2"
    if "Cell_GetValue fuel env x s2 = Some (r2, s2')" for x s2 r2 s2'
    using that by (rule Cell_GetValue_frame)
  show ?thesis
    using ev refl sub
    by (rule Formula_Evaluate_untouched[rotated 2]) (erule c, assumption+, erule fr)
qed

lemma reachable_error_sheet: "reachable (scenario_env False) error_sheet"
proof -
  have "reachable (scenario_env False) (snd (Cell_Set (scenario_env False) (0, 0) ''abc'' four_cells))"
    by (rule reachable_snd_Cell_Set[OF reachable_four_cells]) code_simp
  then show ?thesis
    unfolding error_sheet_def by (rule reachable_snd_Cell_Set) code_simp
qed

text \<open>
  C7. \<open>GetValue\<close> on a formula cell stores a result in the cache if and only if the
  evaluation yields a number; an error is returned as the value and the cache stays empty; a
  filled cache is returned without evaluating. For the cell at \<open>this\<close>, holding the formula
  \<open>f\<close>: with the cache at \<open>v\<close> the read returns \<open>v\<close> and leaves the sheet as it is, whatever
  the fuel; with an empty cache and an evaluation that returns the number \<open>d\<close>, the read
  returns \<open>d\<close> and the sheet the evaluation left with \<open>d\<close> in the cache of the cell; with an
  empty cache and an evaluation that returns the error \<open>e\<close>, the read returns \<open>e\<close> and
  exactly the sheet the evaluation left, and on a sheet reached by the public operations the
  cache of the cell is empty in it.
\<close>

theorem GetValue_cache_fill_rule:
  assumes "map_of s this = Some cell" and "cell_value cell = Some (FormulaCellValue f cache)"
  shows "(cache = Some v \<longrightarrow>
            Cell_GetValue (Suc fuel) env this s = Some (Return (VDouble v), s)) \<and>
         (cache = None \<longrightarrow>
            Formula_Evaluate (Cell_GetValue fuel env) env f s = Some (Return (Inr d), s1) \<longrightarrow>
            Cell_GetValue (Suc fuel) env this s =
              Some (Return (VDouble d), AList.map_entry this (set_cache d) s1) \<and>
            cache_at (AList.map_entry this (set_cache d) s1) this = Some d) \<and>
         (cache = None \<longrightarrow>
            Formula_Evaluate (Cell_GetValue fuel env) env f s = Some (Return (Inl e), s1) \<longrightarrow>
            Cell_GetValue (Suc fuel) env this s = Some (Return (VError e), s1) \<and>
            (reachable env s \<longrightarrow> cache_at s1 this = None))"
proof (intro conjI impI)
  assume "cache = Some v"
  with assms show "Cell_GetValue (Suc fuel) env this s = Some (Return (VDouble v), s)"
    by (simp add: CellValue_GetValue_def FormulaCellValue_GetValue_def)
next
  assume c: "cache = None"
    and ev: "Formula_Evaluate (Cell_GetValue fuel env) env f s = Some (Return (Inr d), s1)"
  with assms show "Cell_GetValue (Suc fuel) env this s =
      Some (Return (VDouble d), AList.map_entry this (set_cache d) s1)"
    by (simp add: CellValue_GetValue_def FormulaCellValue_GetValue_def)
  from ev have "erase_caches s1 = erase_caches s"
    by (rule Formula_Evaluate_frame[rotated]) (erule Cell_GetValue_frame)
  from erase_caches_formula[OF this assms] obtain cell1 c1
    where "map_of s1 this = Some cell1" "cell_value cell1 = Some (FormulaCellValue f c1)"
    by blast
  then show "cache_at (AList.map_entry this (set_cache d) s1) this = Some d"
    by (rule cache_at_set_cache)
next
  assume "cache = None"
    and "Formula_Evaluate (Cell_GetValue fuel env) env f s = Some (Return (Inl e), s1)"
  with assms show "Cell_GetValue (Suc fuel) env this s = Some (Return (VError e), s1)"
    by (simp add: CellValue_GetValue_def FormulaCellValue_GetValue_def)
next
  assume c: "cache = None"
    and ev: "Formula_Evaluate (Cell_GetValue fuel env) env f s = Some (Return (Inl e), s1)"
    and r: "reachable env s"
  from r assms ev have "cell_at s1 this = cell_at s this" by (rule error_leaves_cache)
  with assms c show "cache_at s1 this = None"
    by (simp add: cache_at_def cell_at_def TryInterpretAsFormula_def)
qed

theorem GetValue_cache_fill_rule_witness:
  "Cell_GetValue (Suc (Suc 0)) (scenario_env False) (0, 1) (scenario_before False) =
     Some (Return (VDouble 1), AList.map_entry (0, 1) (set_cache 1) (scenario_before False)) \<and>
   cache_at (AList.map_entry (0, 1) (set_cache 1) (scenario_before False)) (0, 1) = Some 1 \<and>
   Cell_GetValue (Suc 0) (scenario_env False) (0, 1) (scenario_filled False) =
     Some (Return (VDouble 1), scenario_filled False) \<and>
   reachable (scenario_env False) error_sheet \<and>
   Cell_GetValue (Suc (Suc 0)) (scenario_env False) (0, 1) error_sheet =
     Some (Return (VError (FormulaError Value)), error_sheet) \<and>
   cache_at error_sheet (0, 1) = None"
proof -
  have present: "map_of (scenario_before False) (0, 1) = Some (cell_at (scenario_before False) (0, 1))"
    by code_simp
  have formula: "cell_value (cell_at (scenario_before False) (0, 1)) =
      Some (FormulaCellValue (make_Formula (CellExpr (0, 0))) None)"
    by code_simp
  have evaluated: "Formula_Evaluate (Cell_GetValue (Suc 0) (scenario_env False)) (scenario_env False)
      (make_Formula (CellExpr (0, 0))) (scenario_before False) = Some (Return (Inr 1), scenario_before False)"
    by code_simp
  have present': "map_of (scenario_filled False) (0, 1) = Some (cell_at (scenario_filled False) (0, 1))"
    by code_simp
  have formula': "cell_value (cell_at (scenario_filled False) (0, 1)) =
      Some (FormulaCellValue (make_Formula (CellExpr (0, 0))) (Some 1))"
    by code_simp
  have present'': "map_of error_sheet (0, 1) = Some (cell_at error_sheet (0, 1))"
    by code_simp
  have formula'': "cell_value (cell_at error_sheet (0, 1)) =
      Some (FormulaCellValue (make_Formula (CellExpr (0, 0))) None)"
    by code_simp
  have failed: "Formula_Evaluate (Cell_GetValue (Suc 0) (scenario_env False)) (scenario_env False)
      (make_Formula (CellExpr (0, 0))) error_sheet = Some (Return (Inl (FormulaError Value)), error_sheet)"
    by code_simp
  from GetValue_cache_fill_rule[OF present formula, of 0 "Suc 0" "scenario_env False" 1
      "scenario_before False" "FormulaError Value"] evaluated
    GetValue_cache_fill_rule[OF present' formula', of 1 0 "scenario_env False" 1
      "scenario_filled False" "FormulaError Value"]
    GetValue_cache_fill_rule[OF present'' formula'', of 0 "Suc 0" "scenario_env False" 1
      error_sheet "FormulaError Value"] failed reachable_error_sheet
  show ?thesis by simp
qed

end
